theory Spec2Isabelle
  imports Main "HOL-Library.Sublist" "HOL-Library.Multiset"
begin

section \<open>Strings of the host language\<close>

text \<open>
  Strings are lists of 8-bit characters: the UTF-8 bytes of the text. Line feeds and the
  ASCII marker the formatter looks for are the same bytes in every position of a text,
  so splitting and searching on bytes is splitting and searching on the text; where a
  character of several bytes matters (the line separators the stack-trace pattern stops
  at), its bytes are written out. The built-in string operations the provider
  calls (\<^verbatim>\<open>split('\n')\<close>, \<^verbatim>\<open>join('\n')\<close>, \<^verbatim>\<open>includes\<close>, \<^verbatim>\<open>findIndex\<close>, \<^verbatim>\<open>splice\<close>,
  \<^verbatim>\<open>push\<close>) are written out as recursive functions.
\<close>

definition newline :: char where
  "newline = CHR 0x0A"

text \<open>\<^verbatim>\<open>s.split('\n')\<close>: the empty string gives one empty line.\<close>

fun split_newline :: "string \<Rightarrow> string list" where
  "split_newline [] = [[]]"
| "split_newline (c # cs) =
     (if c = newline then [] # split_newline cs
      else (c # hd (split_newline cs)) # tl (split_newline cs))"

text \<open>\<^verbatim>\<open>lines.join('\n')\<close>.\<close>

fun join_newline :: "string list \<Rightarrow> string" where
  "join_newline [] = []"
| "join_newline [l] = l"
| "join_newline (l # m # ls) = l @ newline # join_newline (m # ls)"

text \<open>\<^verbatim>\<open>l.includes(sub)\<close>: \<open>sub\<close> occurs at some position of \<open>l\<close>.\<close>

fun str_includes :: "string \<Rightarrow> string \<Rightarrow> bool" where
  "str_includes [] sub = (sub = [])"
| "str_includes (c # cs) sub = (prefix sub (c # cs) \<or> str_includes cs sub)"

text \<open>\<^verbatim>\<open>xs.findIndex(p)\<close>: the first index whose element satisfies \<open>p\<close>, or \<open>-1\<close>.\<close>

fun findIndex :: "('a \<Rightarrow> bool) \<Rightarrow> 'a list \<Rightarrow> int" where
  "findIndex p [] = -1"
| "findIndex p (x # xs) =
     (if p x then 0 else (let i = findIndex p xs in if i = -1 then -1 else i + 1))"

text \<open>\<^verbatim>\<open>xs.splice(start, 1, y)\<close> for \<open>0 \<le> start\<close>: one element is replaced by \<open>y\<close>;
  at \<open>start \<ge> length\<close> nothing is removed and \<open>y\<close> is added at the end.\<close>

definition splice1 :: "nat \<Rightarrow> 'a \<Rightarrow> 'a list \<Rightarrow> 'a list" where
  "splice1 start y xs = take start xs @ y # drop (Suc start) xs"

definition push :: "'a \<Rightarrow> 'a list \<Rightarrow> 'a list" where
  "push y xs = xs @ [y]"

section \<open>Diagnostic formatter\<close>

text \<open>The formatter returns either the message itself or a \<^verbatim>\<open>MarkdownString\<close>.\<close>

datatype formatted = PlainText string | MarkdownString string

definition plus_actual :: string where
  "plus_actual = ''+ actual''"

definition diff_fence :: string where
  "diff_fence = ''```diff''"

definition close_fence :: string where
  "close_fence = ''```''"

definition tryMakeMarkdown :: "string \<Rightarrow> formatted" where
  "tryMakeMarkdown message =
     (let lines = split_newline message;
          start = findIndex (\<lambda>l. str_includes l plus_actual) lines
      in if start = -1 then PlainText message
         else MarkdownString
                (join_newline (push close_fence (splice1 (nat start) diff_fence lines))))"

section \<open>Host data types\<close>

text \<open>
  The editor API's value classes are records of their constructor arguments: what the
  editor's own constructors make of them (a \<^verbatim>\<open>Range\<close> orders its two ends, a
  \<^verbatim>\<open>Position\<close> rejects negative numbers) lies outside the provider.
  \<^verbatim>\<open>Uri.parse\<close> is the identity on the text of the URI. A \<^verbatim>\<open>Location\<close> is built
  from a URI and either a range or a position, as the provider does.
\<close>

type_synonym Uri = string

datatype Position = Position (line: int) (character: int)

datatype Range = Range (start: Position) (finish: Position)

datatype RangeOrPosition = AtRange Range | AtPosition Position

datatype Location = Location (location_uri: Uri) (rangeOrPosition: RangeOrPosition)

datatype TestResultState = Unset | Queued | Running | Passed | Failed | Skipped | Errored

text \<open>A test case item: \<open>ident\<close> is the identity of the object, the other fields are
  the ones the provider reads.\<close>

record TestCase =
  ident :: nat
  uri :: Uri
  srcRange :: Range
  fullLabel :: string

record TestMessage =
  message :: formatted
  location :: "Location option"
  actualOutput :: "string option"
  expectedOutput :: "string option"

definition TestMessage_new :: "formatted \<Rightarrow> TestMessage" where
  "TestMessage_new m =
     \<lparr>message = m, location = None, actualOutput = None, expectedOutput = None\<rparr>"

text \<open>Events of the runner's output scanner.\<close>

record IPassEvent =
  fullTitle :: string
  duration :: int

record IFailEvent = IPassEvent +
  err :: string
  stack :: "string option"
  expected :: "string option"
  actual :: "string option"

datatype MochaEventTuple = Start | Pass IPassEvent | Fail IFailEvent | End

text \<open>\<^verbatim>\<open>String(v)\<close> of an optional string, \<^verbatim>\<open>a || b\<close> on an optional string (absent and
  empty are falsy) and \<^verbatim>\<open>a ?? b\<close>.\<close>

definition String_of :: "string option \<Rightarrow> string" where
  "String_of v = (case v of None \<Rightarrow> ''undefined'' | Some s \<Rightarrow> s)"

definition or_else :: "string option \<Rightarrow> string \<Rightarrow> string" where
  "or_else a b = (case a of None \<Rightarrow> b | Some s \<Rightarrow> if s = [] then b else s)"

definition nullish :: "'a option \<Rightarrow> 'a \<Rightarrow> 'a" where
  "nullish a b = (case a of None \<Rightarrow> b | Some v \<Rightarrow> v)"

section \<open>Location resolver\<close>

subsection \<open>The stack-trace pattern\<close>

text \<open>
  The pattern is \<^verbatim>\<open>/(file:\/{3}.+):([0-9]+):([0-9]+)/\<close>, run with \<^verbatim>\<open>exec\<close>: the leftmost
  start position that matches wins, \<^verbatim>\<open>.+\<close> is greedy and gives characters back one at
  a time, and \<^verbatim>\<open>.\<close> matches no line terminator: line feed, carriage return, and the
  line and paragraph separators U+2028 and U+2029, which are three bytes each.
  \<open>dot_run\<close> is the number of bytes from the head of a text to its first line
  terminator, the most \<^verbatim>\<open>.+\<close> can take.
\<close>

definition is_digit :: "char \<Rightarrow> bool" where
  "is_digit c = (c \<in> set ''0123456789'')"

definition line_terminators :: "string list" where
  "line_terminators =
     [[CHR 0x0A], [CHR 0x0D], [CHR 0xE2, CHR 0x80, CHR 0xA8], [CHR 0xE2, CHR 0x80, CHR 0xA9]]"

definition terminator_at :: "string \<Rightarrow> bool" where
  "terminator_at t = (\<exists>lt \<in> set line_terminators. prefix lt t)"

fun dot_run :: "string \<Rightarrow> nat" where
  "dot_run [] = 0"
| "dot_run (c # cs) = (if terminator_at (c # cs) then 0 else Suc (dot_run cs))"

definition file_scheme :: string where
  "file_scheme = ''file:///''"

text \<open>\<^verbatim>\<open>:([0-9]+):([0-9]+)\<close> at the head of \<open>t\<close>. A greedy digit group that must be
  followed by a colon can only be the whole run of digits; the last group takes the
  whole run.\<close>

definition match_tail :: "string \<Rightarrow> (string \<times> string) option" where
  "match_tail t =
     (case t of
        [] \<Rightarrow> None
      | c # t1 \<Rightarrow>
          if c \<noteq> CHR '':'' then None
          else let ln = takeWhile is_digit t1; t2 = dropWhile is_digit t1
               in if ln = [] then None
                  else (case t2 of
                          [] \<Rightarrow> None
                        | d # t3 \<Rightarrow>
                            if d \<noteq> CHR '':'' then None
                            else let col = takeWhile is_digit t3
                                 in if col = [] then None else Some (ln, col)))"

text \<open>\<^verbatim>\<open>.+\<close> holding \<open>k\<close> characters of \<open>rest\<close>, then fewer, never none.\<close>

fun backtrack :: "string \<Rightarrow> nat \<Rightarrow> (string \<times> string \<times> string) option" where
  "backtrack rest 0 = None"
| "backtrack rest (Suc k) =
     (case match_tail (drop (Suc k) rest) of
        Some (ln, col) \<Rightarrow> Some (take (Suc k) rest, ln, col)
      | None \<Rightarrow> backtrack rest k)"

definition match_here :: "string \<Rightarrow> (string \<times> string \<times> string) option" where
  "match_here s =
     (if prefix file_scheme s
      then let rest = drop (length file_scheme) s
           in (case backtrack rest (dot_run rest) of
                 None \<Rightarrow> None
               | Some (u, ln, col) \<Rightarrow> Some (file_scheme @ u, ln, col))
      else None)"

fun regex_exec :: "string \<Rightarrow> (string \<times> string \<times> string) option" where
  "regex_exec [] = None"
| "regex_exec (c # cs) =
     (case match_here (c # cs) of Some r \<Rightarrow> Some r | None \<Rightarrow> regex_exec cs)"




subsection \<open>Numbers\<close>

text \<open>
  \<^verbatim>\<open>Number(s)\<close> on a string of decimal digits is the double nearest to its decimal
  value, ties going to the even significand, and \<open>Infinity\<close> from \<open>2^1024\<close> on. A
  double that is an integer is written as that integer. \<open>round_double\<close> rounds a
  natural number to 53 significant bits; \<open>minus_one\<close> is \<^verbatim>\<open>x - 1\<close> in the same
  arithmetic.
\<close>

datatype js_number = Num int | Infinity

definition decimal :: "string \<Rightarrow> nat" where
  "decimal s = foldl (\<lambda>n c. 10 * n + (of_char c - 48)) 0 s"

fun bit_length :: "nat \<Rightarrow> nat" where
  "bit_length n = (if n = 0 then 0 else Suc (bit_length (n div 2)))"

declare bit_length.simps [simp del]

definition round_double :: "nat \<Rightarrow> nat" where
  "round_double n =
     (if n < 2 ^ 53 then n
      else let e = bit_length n - 53; q = n div 2 ^ e; r = n mod 2 ^ e
           in if 2 ^ e < 2 * r \<or> (2 * r = 2 ^ e \<and> odd q) then (q + 1) * 2 ^ e else q * 2 ^ e)"

definition to_double :: "nat \<Rightarrow> js_number" where
  "to_double n = (if 2 ^ 1024 \<le> round_double n then Infinity else Num (int (round_double n)))"

definition Number :: "string \<Rightarrow> js_number" where
  "Number s = to_double (decimal s)"

definition minus_one :: "js_number \<Rightarrow> js_number" where
  "minus_one x =
     (case x of
        Infinity \<Rightarrow> Infinity
      | Num i \<Rightarrow> if i \<le> 0 then Num (i - 1) else Num (int (round_double (nat (i - 1)))))"

subsection \<open>The resolver\<close>

text \<open>
  The file fetch and the source-map library are collaborators outside the provider:
  \<open>getContentsFromFile\<close> and the \<open>SourceMapConsumer\<close> constructor may throw, and so
  may \<open>originalPositionFor\<close>, which otherwise answers with three nullable fields. The
  numbers of an answer are integers a double holds exactly (the library decodes them
  from the 32-bit fields of the map), so \<^verbatim>\<open>line - 1\<close> is exact on them. \<open>'sm\<close> is the
  type of a loaded source map. The editor's \<^verbatim>\<open>Position\<close> constructor throws for a negative
  line or character.
\<close>

datatype js_error = Error (error_stack: string)

datatype needle = Needle (needle_column: js_number) (needle_line: js_number)

text \<open>How a promise settles.\<close>

datatype 'a settlement = Fulfilled 'a | Rejected js_error

definition new_Position :: "int \<Rightarrow> int \<Rightarrow> js_error + Position" where
  "new_Position l c =
     (if l < 0 \<or> c < 0 then Inl (Error ''Illegal argument'') else Inr (Position l c))"

datatype NullableMappedPosition =
  MappedPosition (source: "string option") (orig_line: "int option") (orig_column: "int option")

record 'sm host =
  getContentsFromFile :: "Uri \<Rightarrow> js_error + string"
  SourceMapConsumer :: "string \<Rightarrow> string \<Rightarrow> js_error + 'sm"
  originalPositionFor :: "'sm \<Rightarrow> needle \<Rightarrow> js_error + NullableMappedPosition"

text \<open>The body of the \<^verbatim>\<open>try\<close> block.\<close>

definition load_source_map :: "'sm host \<Rightarrow> string \<Rightarrow> js_error + 'sm" where
  "load_source_map h sourceMapUri =
     (case getContentsFromFile h sourceMapUri of
        Inl e \<Rightarrow> Inl e
      | Inr contents \<Rightarrow> SourceMapConsumer h contents sourceMapUri)"

text \<open>
  The result is the lines written with \<^verbatim>\<open>console.warn\<close> and the way the promise
  settles. Only the loading stands in the \<^verbatim>\<open>try\<close> block: what the query or the
  construction of the position throws rejects the promise.
\<close>

definition tryDeriveLocation ::
  "'sm host \<Rightarrow> string \<Rightarrow> string list \<times> Location option settlement"
where
  "tryDeriveLocation h stk =
     (case regex_exec stk of
        None \<Rightarrow> ([], Fulfilled None)
      | Some (fileUri, ln, col) \<Rightarrow>
          (case load_source_map h (fileUri @ ''.map'') of
             Inl e \<Rightarrow>
               ([''Error parsing sourcemap for '' @ fileUri @ '': '' @ error_stack e],
                Fulfilled None)
           | Inr sourceMap \<Rightarrow>
               (case originalPositionFor h sourceMap
                       (Needle (minus_one (Number col)) (Number ln)) of
                  Inl e \<Rightarrow> ([], Rejected e)
                | Inr (MappedPosition src pl pc) \<Rightarrow>
                    (case (pl, pc, src) of
                       (Some l, Some c, Some sr) \<Rightarrow>
                         (case new_Position (l - 1) c of
                            Inl e \<Rightarrow> ([], Rejected e)
                          | Inr pos \<Rightarrow> ([], Fulfilled (Some (Location sr (AtPosition pos)))))
                     | _ \<Rightarrow> ([], Fulfilled None)))))"

section \<open>Run scanner\<close>

subsection \<open>State\<close>

text \<open>
  The objects a scan works on, as one record: the output channel (its lines and how
  often it was brought to front), the console, the pending index \<open>tests\<close>, the calls
  made on the run request (\<^verbatim>\<open>setState\<close>, \<^verbatim>\<open>appendMessage\<close>), the handlers registered on
  the scanner and the cancellation token, the promise of the scan (\<open>settled\<close>, and
  whether its \<^verbatim>\<open>finally\<close> callback is queued), the calls of \<^verbatim>\<open>scanner.dispose\<close>, and the
  location resolutions in flight, each with the variables its \<^verbatim>\<open>then\<close> callback
  closes over.
\<close>

datatype subscription = OnCancellationRequested | OnRunnerError | OnOtherOutput | OnMochaEvent

record inflight =
  tcase :: TestCase
  testFirstLine :: Location
  failure :: IFailEvent
  locating :: string

record scan_state =
  output_lines :: "string list"
  shown :: nat
  console :: "string list"
  tests :: "string \<rightharpoonup> TestCase"
  setStates :: "(TestCase \<times> TestResultState \<times> int) list"
  appendedMessages :: "(TestCase \<times> TestMessage) list"
  subscriptions :: "subscription list"
  settled :: "TestResultState option"
  finally_queued :: bool
  disposed :: nat
  resolving :: "inflight list"

definition appendLine :: "string \<Rightarrow> scan_state \<Rightarrow> scan_state" where
  "appendLine str s = s\<lparr>output_lines := output_lines s @ [str]\<rparr>"

definition output_show :: "scan_state \<Rightarrow> scan_state" where
  "output_show s = s\<lparr>shown := Suc (shown s)\<rparr>"

definition setState :: "TestCase \<Rightarrow> TestResultState \<Rightarrow> int \<Rightarrow> scan_state \<Rightarrow> scan_state" where
  "setState tc st d s = s\<lparr>setStates := setStates s @ [(tc, st, d)]\<rparr>"

definition appendMessage :: "TestCase \<Rightarrow> TestMessage \<Rightarrow> scan_state \<Rightarrow> scan_state" where
  "appendMessage tc m s = s\<lparr>appendedMessages := appendedMessages s @ [(tc, m)]\<rparr>"

definition tests_delete :: "string \<Rightarrow> scan_state \<Rightarrow> scan_state" where
  "tests_delete title s = s\<lparr>tests := (tests s)(title := None)\<rparr>"

definition scanner_dispose :: "scan_state \<Rightarrow> scan_state" where
  "scanner_dispose s = s\<lparr>disposed := Suc (disposed s)\<rparr>"

text \<open>\<^verbatim>\<open>resolve(v)\<close>: only the first call settles the promise; settling queues the
  \<^verbatim>\<open>finally\<close> callback.\<close>

definition resolve :: "TestResultState \<Rightarrow> scan_state \<Rightarrow> scan_state" where
  "resolve v s =
     (if settled s = None then s\<lparr>settled := Some v, finally_queued := True\<rparr> else s)"

subsection \<open>Handlers\<close>

definition pass_mark :: string where
  "pass_mark = CHR 0x20 # CHR 0xE2 # CHR 0x88 # CHR 0x9A # '' ''"

definition fail_mark :: string where
  "fail_mark = '' x ''"

definition onCancellationRequested :: "scan_state \<Rightarrow> scan_state" where
  "onCancellationRequested s = resolve Skipped s"

definition onRunnerError :: "string \<Rightarrow> scan_state \<Rightarrow> scan_state" where
  "onRunnerError e s = resolve Errored (appendLine e s)"

definition onOtherOutput :: "string \<Rightarrow> scan_state \<Rightarrow> scan_state" where
  "onOtherOutput str s = appendLine str s"

fun onMochaEvent :: "MochaEventTuple \<Rightarrow> scan_state \<Rightarrow> scan_state" where
  "onMochaEvent Start s = s"
| "onMochaEvent (Pass p) s =
     (let title = fullTitle p;
          found = tests s title;
          s1 = appendLine (pass_mark @ title) s
      in case found of
           Some tc \<Rightarrow> tests_delete title (setState tc Passed (duration p) s1)
         | None \<Rightarrow> s1)"
| "onMochaEvent (Fail f) s =
     (let id = fullTitle f;
          found = tests s id;
          s1 = appendLine (fail_mark @ id) s
      in case found of
           None \<Rightarrow> s1
         | Some tc \<Rightarrow>
             let s2 = tests_delete id s1;
                 first_line =
                   Location (uri tc)
                     (AtRange (Range (start (srcRange tc))
                                     (Position (line (start (srcRange tc))) 100)))
             in s2\<lparr>resolving := resolving s2 @
                     [\<lparr>tcase = tc, testFirstLine = first_line, failure = f,
                       locating = or_else (stack f) (err f)\<rparr>]\<rparr>)"
| "onMochaEvent End s = resolve Skipped s"

text \<open>The \<^verbatim>\<open>then\<close> callback of a location resolution.\<close>

definition location_then :: "inflight \<Rightarrow> Location option \<Rightarrow> scan_state \<Rightarrow> scan_state" where
  "location_then p loc s =
     (let f = failure p;
          m0 = TestMessage_new (tryMakeMarkdown (err f));
          m1 = m0\<lparr>location := Some (nullish loc (testFirstLine p))\<rparr>;
          m2 = m1\<lparr>actualOutput := Some (String_of (actual f))\<rparr>;
          m3 = m2\<lparr>expectedOutput := Some (String_of (expected f))\<rparr>
      in appendLine (or_else (stack f) (err f))
           (setState (tcase p) Failed (duration f)
              (appendMessage (tcase p) m3 s)))"

subsection \<open>Entry and event delivery\<close>

definition scanTestOutput :: "bool \<Rightarrow> scan_state \<Rightarrow> scan_state" where
  "scanTestOutput isCancellationRequested s =
     (if isCancellationRequested
      then (scanner_dispose s)\<lparr>settled := Some Skipped\<rparr>
      else s\<lparr>subscriptions := subscriptions s @
                [OnCancellationRequested, OnRunnerError, OnOtherOutput, OnMochaEvent]\<rparr>)"

text \<open>
  What can happen while a scan is awaited: the token or the scanner fires an event, or
  the \<open>k\<close>-th location resolution in flight completes. A fired event runs the handler
  registered for it, if there is one. The completion of a resolution runs its \<^verbatim>\<open>then\<close>
  callback when the promise is fulfilled, and nothing else decides whether it runs; when
  the promise is rejected no callback is registered for that, and nothing runs.
\<close>

datatype happening =
    CancellationRequested
  | RunnerError string
  | OtherOutput string
  | MochaEvent MochaEventTuple
  | LocationSettled nat

fun fire :: "'sm host \<Rightarrow> happening \<Rightarrow> scan_state \<Rightarrow> scan_state" where
  "fire h CancellationRequested s =
     (if OnCancellationRequested \<in> set (subscriptions s) then onCancellationRequested s else s)"
| "fire h (RunnerError e) s =
     (if OnRunnerError \<in> set (subscriptions s) then onRunnerError e s else s)"
| "fire h (OtherOutput str) s =
     (if OnOtherOutput \<in> set (subscriptions s) then onOtherOutput str s else s)"
| "fire h (MochaEvent evt) s =
     (if OnMochaEvent \<in> set (subscriptions s) then onMochaEvent evt s else s)"
| "fire h (LocationSettled k) s =
     (if k < length (resolving s)
      then let p = resolving s ! k;
               r = tryDeriveLocation h (locating p);
               s1 = s\<lparr>console := console s @ fst r,
                      resolving := take k (resolving s) @ drop (Suc k) (resolving s)\<rparr>
           in (case snd r of
                 Fulfilled loc \<Rightarrow> location_then p loc s1
               | Rejected e \<Rightarrow> s1)
      else s)"

text \<open>The \<^verbatim>\<open>finally\<close> callback runs once the handler that settled the promise has
  returned.\<close>

definition finally_job :: "scan_state \<Rightarrow> scan_state" where
  "finally_job s =
     (if finally_queued s then scanner_dispose (s\<lparr>finally_queued := False\<rparr>) else s)"

definition deliver :: "'sm host \<Rightarrow> happening \<Rightarrow> scan_state \<Rightarrow> scan_state" where
  "deliver h e s = finally_job (fire h e s)"

primrec deliver_all :: "'sm host \<Rightarrow> happening list \<Rightarrow> scan_state \<Rightarrow> scan_state" where
  "deliver_all h [] s = s"
| "deliver_all h (e # es) s = deliver_all h es (deliver h e s)"

section \<open>Pending-test index builder\<close>

text \<open>
  A test item is a file, a case, or anything else with children. A file carries its
  children before and after \<^verbatim>\<open>refresh()\<close>; the builder reads them after the refresh.
\<close>

datatype VSCodeTest =
    TestFile Uri "VSCodeTest list" "VSCodeTest list"
  | CaseItem TestCase
  | Container "VSCodeTest list"

text \<open>The work stack, the title map, and the calls made so far: the files refreshed
  and the cases passed to \<^verbatim>\<open>titleMap.set\<close>.\<close>

record walk =
  queue :: "VSCodeTest list list"
  titleMap :: "string \<rightharpoonup> TestCase"
  refreshed :: "Uri list"
  inserted :: "TestCase list"

text \<open>The body of the \<^verbatim>\<open>for\<close> loop.\<close>

fun visit :: "VSCodeTest \<Rightarrow> walk \<Rightarrow> walk" where
  "visit (TestFile u stale fresh) w =
     w\<lparr>refreshed := refreshed w @ [u], queue := queue w @ [fresh]\<rparr>"
| "visit (CaseItem c) w =
     w\<lparr>titleMap := (titleMap w)(fullLabel c \<mapsto> c), inserted := inserted w @ [c]\<rparr>"
| "visit (Container children) w = w\<lparr>queue := queue w @ [children]\<rparr>"

primrec visit_batch :: "VSCodeTest list \<Rightarrow> walk \<Rightarrow> walk" where
  "visit_batch [] w = w"
| "visit_batch (child # rest) w = visit_batch rest (visit child w)"

definition queue_weight :: "VSCodeTest list list \<Rightarrow> nat" where
  "queue_weight q = sum_list (map (\<lambda>b. Suc (size_list size b)) q)"

lemma queue_weight_visit_batch:
  "queue_weight (queue (visit_batch b w)) \<le> queue_weight (queue w) + sum_list (map size b)"
proof (induction b arbitrary: w)
  case Nil
  then show ?case by simp
next
  case (Cons child rest)
  have "queue_weight (queue (visit child w)) \<le> queue_weight (queue w) + size child"
    by (cases child) (simp_all add: queue_weight_def)
  with Cons [of "visit child w"] show ?case by simp
qed

lemma sum_size_less: "sum_list (map size b) < Suc (size_list size (b :: VSCodeTest list))"
  by (induction b) simp_all

function while_queue :: "walk \<Rightarrow> walk" where
  "while_queue w =
     (if queue w = [] then w
      else while_queue (visit_batch (last (queue w)) (w\<lparr>queue := butlast (queue w)\<rparr>)))"
  by pat_completeness auto
termination
proof (relation "measure (\<lambda>w. queue_weight (queue w))")
  show "wf (measure (\<lambda>w. queue_weight (queue w)))" by simp
next
  fix w :: walk
  assume ne: "queue w \<noteq> []"
  let ?b = "last (queue w)"
  let ?w' = "w\<lparr>queue := butlast (queue w)\<rparr>"
  have split: "queue w = butlast (queue w) @ [?b]"
    using ne by simp
  have "queue_weight (queue w) = queue_weight (butlast (queue w)) + Suc (size_list size ?b)"
    by (subst split) (simp add: queue_weight_def)
  moreover have "queue_weight (queue (visit_batch ?b ?w'))
      \<le> queue_weight (butlast (queue w)) + sum_list (map size ?b)"
    using queue_weight_visit_batch [of ?b ?w'] by simp
  ultimately have "queue_weight (queue (visit_batch ?b ?w')) < queue_weight (queue w)"
    using sum_size_less [of ?b] by linarith
  then show "(visit_batch ?b ?w', w) \<in> measure (\<lambda>w. queue_weight (queue w))"
    by simp
qed

declare while_queue.simps [simp del]

definition getPendingTestMap :: "VSCodeTest list \<Rightarrow> walk" where
  "getPendingTestMap tests0 =
     while_queue \<lparr>queue = [tests0], titleMap = Map.empty, refreshed = [], inserted = []\<rparr>"

section \<open>Run coordinator\<close>

text \<open>
  The job \<open>runTests\<close> puts on its queue: the banner, the scan, and after the scan has
  settled the check that brings the output channel to front. \<open>started\<close> is the text
  of the current date. The walk from the first requested item up to its root and the
  start of the runner process decide which scanner the job reads; they are not part of
  the model, which begins with the pending index built and the scanner at hand.
\<close>

definition banner :: "string \<Rightarrow> scan_state \<Rightarrow> scan_state" where
  "banner started s =
     appendLine [] (appendLine (''Starting test run at '' @ started) (appendLine [] s))"

definition after_scan :: "TestResultState \<Rightarrow> scan_state \<Rightarrow> scan_state" where
  "after_scan outcome s = (if outcome \<noteq> Skipped then output_show s else s)"

definition job_start :: "string \<Rightarrow> bool \<Rightarrow> scan_state \<Rightarrow> scan_state" where
  "job_start started isCancellationRequested s0 =
     (let s = scanTestOutput isCancellationRequested (banner started s0)
      in case settled s of Some outcome \<Rightarrow> after_scan outcome s | None \<Rightarrow> s)"

text \<open>The job resumes in the step in which the promise of the scan settles.\<close>

definition job_step :: "'sm host \<Rightarrow> happening \<Rightarrow> scan_state \<Rightarrow> scan_state" where
  "job_step h e s =
     (let s' = deliver h e s
      in case settled s of
           Some _ \<Rightarrow> s'
         | None \<Rightarrow> (case settled s' of Some outcome \<Rightarrow> after_scan outcome s' | None \<Rightarrow> s'))"

primrec job_steps :: "'sm host \<Rightarrow> happening list \<Rightarrow> scan_state \<Rightarrow> scan_state" where
  "job_steps h [] s = s"
| "job_steps h (e # es) s = job_steps h es (job_step h e s)"

text \<open>The state a run starts from: the channel as earlier runs left it, the pending
  index, nothing set, no handler registered, no promise yet.\<close>

definition fresh_run :: "string list \<Rightarrow> (string \<rightharpoonup> TestCase) \<Rightarrow> scan_state" where
  "fresh_run out pending =
     \<lparr>output_lines = out, shown = 0, console = [], tests = pending, setStates = [],
      appendedMessages = [], subscriptions = [], settled = None, finally_queued = False,
      disposed = 0, resolving = []\<rparr>"

definition runTests ::
  "'sm host \<Rightarrow> string \<Rightarrow> string list \<Rightarrow> VSCodeTest list \<Rightarrow> bool \<Rightarrow> happening list \<Rightarrow> scan_state"
where
  "runTests h started out tests0 isCancellationRequested es =
     (let pending = titleMap (getPendingTestMap tests0)
      in job_steps h es (job_start started isCancellationRequested (fresh_run out pending)))"

section \<open>Notions used in the statements\<close>

text \<open>
  The outcome an event settles an unsettled scan with, as the specification lists the
  transitions: cancellation and the \<^verbatim>\<open>end\<close> event give \<open>Skipped\<close>, a runner fault gives
  \<open>Errored\<close>, nothing else settles. \<open>first_outcome\<close> is the outcome of the first
  settling event of a sequence.
\<close>

fun outcome_of :: "happening \<Rightarrow> TestResultState option" where
  "outcome_of CancellationRequested = Some Skipped"
| "outcome_of (RunnerError e) = Some Errored"
| "outcome_of (MochaEvent End) = Some Skipped"
| "outcome_of _ = None"

fun first_outcome :: "happening list \<Rightarrow> TestResultState option" where
  "first_outcome [] = None"
| "first_outcome (e # es) =
     (case outcome_of e of Some v \<Rightarrow> Some v | None \<Rightarrow> first_outcome es)"

definition all_subscribed :: "scan_state \<Rightarrow> bool" where
  "all_subscribed s =
     (set (subscriptions s) = {OnCancellationRequested, OnRunnerError, OnOtherOutput, OnMochaEvent})"

text \<open>How often the channel has been brought to front once a job stands at a given
  state of the scan's promise: once for an outcome other than \<open>Skipped\<close>.\<close>

definition focus_count :: "TestResultState option \<Rightarrow> nat" where
  "focus_count r = (case r of None \<Rightarrow> 0 | Some v \<Rightarrow> if v \<noteq> Skipped then 1 else 0)"

text \<open>
  What a walk of a hierarchy has to find, read off the hierarchy itself: the case
  items and the file items below an item, going through the children of a container
  and through the children a file has after its refresh.
\<close>

fun cases_of :: "VSCodeTest \<Rightarrow> TestCase list" where
  "cases_of (TestFile u stale fresh) = concat (map cases_of fresh)"
| "cases_of (CaseItem c) = [c]"
| "cases_of (Container children) = concat (map cases_of children)"

fun files_of :: "VSCodeTest \<Rightarrow> Uri list" where
  "files_of (TestFile u stale fresh) = u # concat (map files_of fresh)"
| "files_of (CaseItem c) = []"
| "files_of (Container children) = concat (map files_of children)"

definition cases_below :: "VSCodeTest list \<Rightarrow> TestCase list" where
  "cases_below b = concat (map cases_of b)"

definition files_below :: "VSCodeTest list \<Rightarrow> Uri list" where
  "files_below b = concat (map files_of b)"

definition titled :: "TestCase \<Rightarrow> string \<times> TestCase" where
  "titled c = (fullLabel c, c)"

text \<open>
  For the at-most-once property: an index is \<open>keyed\<close> when every entry stands under
  the title of its case, and the \<open>budget\<close> of a case counts where it can still be or
  has been set: its entry in the index, the resolutions in flight for it, and the
  \<^verbatim>\<open>setState\<close> calls made on it.
\<close>

definition keyed :: "scan_state \<Rightarrow> bool" where
  "keyed s = (\<forall>t c. tests s t = Some c \<longrightarrow> fullLabel c = t)"

definition budget :: "scan_state \<Rightarrow> TestCase \<Rightarrow> nat" where
  "budget s c =
     (if tests s (fullLabel c) = Some c then 1 else 0)
     + count_list (map tcase (resolving s)) c
     + count_list (map fst (setStates s)) c"

section \<open>Inputs of the worked examples\<close>

definition example_host :: "unit host" where
  "example_host =
     \<lparr>getContentsFromFile = (\<lambda>u. if u = ''file:///a.js.map'' then Inr ''{}''
                                 else Inl (Error ''ENOENT'')),
      SourceMapConsumer = (\<lambda>contents u. Inr ()),
      originalPositionFor =
        (\<lambda>sm n. case (needle_line n, needle_column n) of
                  (Num l, Num c) \<Rightarrow>
                    if l < 1 then Inl (Error ''Line numbers must be >= 1'')
                    else if c < 0 then Inl (Error ''Column numbers must be >= 0'')
                    else Inr (MappedPosition (Some ''a.ts'') (Some (l + 10)) (Some c))
                | _ \<Rightarrow> Inr (MappedPosition None None None))\<rparr>"

definition caseA :: TestCase where
  "caseA = \<lparr>ident = 1, uri = ''file:///w/a.test.ts'',
            srcRange = Range (Position 3 2) (Position 7 4), fullLabel = ''suite caseA''\<rparr>"

definition caseB :: TestCase where
  "caseB = \<lparr>ident = 2, uri = ''file:///w/a.test.ts'',
            srcRange = Range (Position 9 2) (Position 12 4), fullLabel = ''suite caseB''\<rparr>"

definition caseA2 :: TestCase where
  "caseA2 = \<lparr>ident = 3, uri = ''file:///w/b.test.ts'',
             srcRange = Range (Position 1 0) (Position 2 0), fullLabel = ''suite caseA''\<rparr>"

definition example_pending :: "string \<rightharpoonup> TestCase" where
  "example_pending = [''suite caseA'' \<mapsto> caseA, ''suite caseB'' \<mapsto> caseB]"

definition example_scan :: scan_state where
  "example_scan = scanTestOutput False (fresh_run [] example_pending)"

definition passOther :: IPassEvent where
  "passOther = \<lparr>fullTitle = ''other'', duration = 1\<rparr>"

definition failOther :: IFailEvent where
  "failOther = \<lparr>fullTitle = ''other'', duration = 1, err = ''boom'', stack = None,
                expected = None, actual = None\<rparr>"

definition passA :: IPassEvent where
  "passA = \<lparr>fullTitle = ''suite caseA'', duration = 12\<rparr>"

definition failA :: IFailEvent where
  "failA = \<lparr>fullTitle = ''suite caseA'', duration = 3, err = ''late'', stack = None,
            expected = None, actual = None\<rparr>"

definition failB :: IFailEvent where
  "failB = \<lparr>fullTitle = ''suite caseB'', duration = 7, err = ''boom'', stack = None,
            expected = Some ''2'', actual = Some ''1''\<rparr>"

definition example_tests :: "VSCodeTest list" where
  "example_tests =
     [Container [TestFile ''file:///w/a.test.ts'' [CaseItem caseA]
                   [Container [CaseItem caseA, CaseItem caseB]]]]"

definition example_duplicates :: "VSCodeTest list" where
  "example_duplicates =
     [CaseItem caseA,
      TestFile ''file:///w/a.test.ts'' [CaseItem caseA] [Container [CaseItem caseB]],
      CaseItem caseA2]"

section \<open>Properties of the diagnostic formatter\<close>

lemma includes_iff: "str_includes l sub \<longleftrightarrow> (\<exists>pre post. l = pre @ sub @ post)"
proof (induction l)
  case Nil
  then show ?case by auto
next
  case (Cons c cs)
  show ?case
  proof
    assume "str_includes (c # cs) sub"
    then consider "prefix sub (c # cs)" | "str_includes cs sub" by auto
    then show "\<exists>pre post. c # cs = pre @ sub @ post"
    proof cases
      case 1
      then obtain post where "c # cs = sub @ post" by (auto simp: prefix_def)
      then have "c # cs = [] @ sub @ post" by simp
      then show ?thesis by blast
    next
      case 2
      with Cons.IH obtain pre post where "cs = pre @ sub @ post" by blast
      then have "c # cs = (c # pre) @ sub @ post" by simp
      then show ?thesis by blast
    qed
  next
    assume "\<exists>pre post. c # cs = pre @ sub @ post"
    then obtain pre post where e: "c # cs = pre @ sub @ post" by blast
    show "str_includes (c # cs) sub"
    proof (cases pre)
      case Nil
      with e have "prefix sub (c # cs)" by (simp add: prefix_def)
      then show ?thesis by simp
    next
      case (Cons p ps)
      with e have "cs = ps @ sub @ post" by simp
      with Cons.IH have "str_includes cs sub" by blast
      then show ?thesis by simp
    qed
  qed
qed

lemma findIndex_none: "findIndex p xs = -1 \<longleftrightarrow> (\<forall>x \<in> set xs. \<not> p x)"
proof (induction xs)
  case Nil
  then show ?case by simp
next
  case (Cons x xs)
  have "findIndex p xs \<ge> -1" for xs :: "'a list"
    by (induction xs) (auto simp: Let_def)
  then have "findIndex p xs + 1 \<noteq> -1"
    by (smt (verit))
  with Cons show ?case by (auto simp: Let_def)
qed

lemma findIndex_first:
  "\<exists>x \<in> set xs. p x \<Longrightarrow>
   \<exists>pre x post. xs = pre @ x # post \<and> (\<forall>y \<in> set pre. \<not> p y) \<and> p x
     \<and> findIndex p xs = int (length pre)"
proof (induction xs)
  case Nil
  then show ?case by simp
next
  case (Cons a xs)
  show ?case
  proof (cases "p a")
    case True
    then have "a # xs = [] @ a # xs \<and> (\<forall>y \<in> set []. \<not> p y) \<and> p a
      \<and> findIndex p (a # xs) = int (length ([] :: 'a list))" by simp
    then show ?thesis by blast
  next
    case False
    with Cons.prems have "\<exists>x \<in> set xs. p x" by simp
    with Cons.IH obtain pre x post where
      h: "xs = pre @ x # post" "\<forall>y \<in> set pre. \<not> p y" "p x"
         "findIndex p xs = int (length pre)" by blast
    from h False have "a # xs = (a # pre) @ x # post \<and> (\<forall>y \<in> set (a # pre). \<not> p y) \<and> p x
      \<and> findIndex p (a # xs) = int (length (a # pre))" by (simp add: Let_def)
    then show ?thesis by blast
  qed
qed

lemma split_newline_Cons: "\<exists>h t. split_newline m = h # t"
  by (induction m) auto

lemma join_newline_push_char: "join_newline ((c # h) # t) = c # join_newline (h # t)"
  by (cases t) simp_all

lemma join_split_newline: "join_newline (split_newline m) = m"
proof (induction m)
  case Nil
  then show ?case by simp
next
  case (Cons c cs)
  obtain h t where s: "split_newline cs = h # t" using split_newline_Cons by blast
  with Cons show ?case by (simp add: join_newline_push_char)
qed

lemma split_newline_lines: "l \<in> set (split_newline m) \<Longrightarrow> newline \<notin> set l"
proof (induction m arbitrary: l)
  case Nil
  then show ?case by simp
next
  case (Cons c cs)
  obtain h t where s: "split_newline cs = h # t" using split_newline_Cons by blast
  with Cons show ?case by (auto split: if_splits)
qed

lemma hd_split_newline: "hd (split_newline cs) = takeWhile (\<lambda>x. x \<noteq> newline) cs"
  by (induction cs) simp_all

lemma prefix_takeWhile_newline:
  "newline \<notin> set sub \<Longrightarrow>
   prefix sub xs \<longleftrightarrow> prefix sub (takeWhile (\<lambda>x. x \<noteq> newline) xs)"
proof (induction sub arbitrary: xs)
  case Nil
  then show ?case by simp
next
  case (Cons a sub)
  then show ?case by (cases xs) auto
qed

lemma includes_lines:
  "newline \<notin> set sub \<Longrightarrow>
   str_includes m sub \<longleftrightarrow> (\<exists>l \<in> set (split_newline m). str_includes l sub)"
proof (induction m)
  case Nil
  then show ?case by simp
next
  case (Cons c cs)
  obtain h t where s: "split_newline cs = h # t" using split_newline_Cons by blast
  have h: "h = takeWhile (\<lambda>x. x \<noteq> newline) cs"
    using hd_split_newline [of cs] s by simp
  show ?case
  proof (cases "c = newline")
    case True
    have "prefix sub (newline # cs) \<longleftrightarrow> sub = []"
      using Cons.prems by (cases sub) auto
    with True Cons show ?thesis by auto
  next
    case False
    have "prefix sub (c # cs) \<longleftrightarrow> prefix sub (c # h)"
      using prefix_takeWhile_newline [OF Cons.prems, of "c # cs"] False h by simp
    with False Cons s show ?thesis by auto
  qed
qed

lemma split_newline_append_line:
  "newline \<notin> set x \<Longrightarrow> split_newline (x @ newline # rest) = x # split_newline rest"
  by (induction x) auto

lemma includes_across_newline:
  assumes "newline \<notin> set sub" "newline \<notin> set x"
  shows "str_includes (x @ newline # rest) sub \<longleftrightarrow> str_includes x sub \<or> str_includes rest sub"
  using includes_lines [OF assms(1), of "x @ newline # rest"]
    includes_lines [OF assms(1), of rest] split_newline_append_line [OF assms(2), of rest]
  by simp

lemma join_newline_Cons_lines:
  "join_newline (l # after) = l @ concat (map (\<lambda>x. newline # x) after)"
  by (induction after arbitrary: l) simp_all

lemma join_newline_decompose:
  "join_newline (before @ l # after) =
     concat (map (\<lambda>x. x @ [newline]) before) @ l @ concat (map (\<lambda>x. newline # x) after)"
proof (induction before)
  case Nil
  then show ?case by (simp add: join_newline_Cons_lines)
next
  case (Cons b before)
  obtain y ys where "before @ l # after = y # ys" by (cases before) auto
  with Cons show ?case by simp
qed

lemma head_lines_exclude:
  assumes "sub \<noteq> []" "newline \<notin> set sub"
    and "\<forall>x \<in> set before. newline \<notin> set x \<and> \<not> str_includes x sub"
  shows "\<not> str_includes (concat (map (\<lambda>x. x @ [newline]) before)) sub"
  using assms(3)
proof (induction before)
  case Nil
  with assms(1) show ?case by simp
next
  case (Cons b before)
  have "str_includes (b @ newline # concat (map (\<lambda>x. x @ [newline]) before)) sub
      \<longleftrightarrow> str_includes b sub \<or> str_includes (concat (map (\<lambda>x. x @ [newline]) before)) sub"
    using Cons.prems by (intro includes_across_newline assms(2)) simp
  with Cons show ?case by simp
qed

lemma head_lines_end:
  "concat (map (\<lambda>x. x @ [newline]) before) = [] \<or>
   last (concat (map (\<lambda>x. x @ [newline]) before)) = newline"
  by (induction before rule: rev_induct) simp_all

lemma rest_lines_start:
  "concat (map (\<lambda>x. newline # x) after) = [] \<or>
   hd (concat (map (\<lambda>x. newline # x) after)) = newline"
  by (cases after) simp_all

text \<open>
  C4. The formatter returns the message unchanged, as plain text, exactly when the
  message holds no \<^verbatim>\<open>+ actual\<close>, which is when no line of it does; otherwise it returns
  markup. In that case the message is a head of whole lines without the marker, the
  first line that holds it, and the rest; the markup is the head, the opening
  \<^verbatim>\<open>```diff\<close> fence in place of that line, the rest unchanged, a line break and the
  closing fence. Lines are what lies between line feeds: joining the lines of a message
  gives the message back, and no line holds a line feed.
\<close>

theorem tryMakeMarkdown_spec:
  "(tryMakeMarkdown m = PlainText m \<longleftrightarrow> \<not> (\<exists>pre post. m = pre @ ''+ actual'' @ post))
   \<and> ((\<exists>md. tryMakeMarkdown m = MarkdownString md)
        \<longleftrightarrow> (\<exists>pre post. m = pre @ ''+ actual'' @ post))
   \<and> ((\<exists>pre post. m = pre @ ''+ actual'' @ post) \<longrightarrow>
        (\<exists>head l rest.
            m = head @ l @ rest
          \<and> (head = [] \<or> last head = CHR 0x0A)
          \<and> CHR 0x0A \<notin> set l
          \<and> (rest = [] \<or> hd rest = CHR 0x0A)
          \<and> \<not> (\<exists>pre post. head = pre @ ''+ actual'' @ post)
          \<and> (\<exists>pre post. l = pre @ ''+ actual'' @ post)
          \<and> tryMakeMarkdown m
              = MarkdownString (head @ ''```diff'' @ rest @ CHR 0x0A # ''```'')))
   \<and> ((\<exists>pre post. m = pre @ ''+ actual'' @ post)
        \<longleftrightarrow> (\<exists>l \<in> set (split_newline m). \<exists>pre post. l = pre @ ''+ actual'' @ post))
   \<and> join_newline (split_newline m) = m
   \<and> (\<forall>l \<in> set (split_newline m). CHR 0x0A \<notin> set l)"
proof -
  let ?P = "\<lambda>l. str_includes l plus_actual"
  have nl: "newline \<notin> set plus_actual" "plus_actual \<noteq> []"
    by (simp_all add: plus_actual_def newline_def)
  have by_lines: "(\<exists>pre post. m = pre @ ''+ actual'' @ post)
      \<longleftrightarrow> (\<exists>l \<in> set (split_newline m). ?P l)"
    using includes_lines [OF nl(1), of m] by (simp add: includes_iff plus_actual_def)
  have none: "findIndex ?P (split_newline m) = -1 \<longleftrightarrow> \<not> (\<exists>pre post. m = pre @ ''+ actual'' @ post)"
    unfolding by_lines by (simp add: findIndex_none)
  have a: "tryMakeMarkdown m = PlainText m \<longleftrightarrow> \<not> (\<exists>pre post. m = pre @ ''+ actual'' @ post)"
    unfolding none [symmetric] by (simp add: tryMakeMarkdown_def Let_def)
  have b: "(\<exists>md. tryMakeMarkdown m = MarkdownString md)
      \<longleftrightarrow> (\<exists>pre post. m = pre @ ''+ actual'' @ post)"
    using none by (auto simp: tryMakeMarkdown_def Let_def)
  have c: "\<exists>head l rest.
            m = head @ l @ rest
          \<and> (head = [] \<or> last head = CHR 0x0A)
          \<and> CHR 0x0A \<notin> set l
          \<and> (rest = [] \<or> hd rest = CHR 0x0A)
          \<and> \<not> (\<exists>pre post. head = pre @ ''+ actual'' @ post)
          \<and> (\<exists>pre post. l = pre @ ''+ actual'' @ post)
          \<and> tryMakeMarkdown m
              = MarkdownString (head @ ''```diff'' @ rest @ CHR 0x0A # ''```'')"
    if occ: "\<exists>pre post. m = pre @ ''+ actual'' @ post"
  proof -
    from occ have "\<exists>l \<in> set (split_newline m). ?P l" by (simp only: by_lines)
    from findIndex_first [OF this] obtain before l after where
      h: "split_newline m = before @ l # after"
         "\<forall>y \<in> set before. \<not> ?P y" "?P l"
         "findIndex ?P (split_newline m) = int (length before)"
      by blast
    define head where "head = concat (map (\<lambda>x. x @ [newline]) before)"
    define rest where "rest = concat (map (\<lambda>x. newline # x) after)"
    have lines: "\<forall>x \<in> set (split_newline m). newline \<notin> set x"
      using split_newline_lines by blast
    have m: "m = head @ l @ rest"
      using join_split_newline [of m] unfolding h(1) join_newline_decompose head_def rest_def
      by simp
    have he: "head = [] \<or> last head = CHR 0x0A"
      using head_lines_end [of before] by (simp add: head_def newline_def)
    have ln: "CHR 0x0A \<notin> set l"
      using lines h(1) by (simp add: newline_def)
    have re: "rest = [] \<or> hd rest = CHR 0x0A"
      using rest_lines_start [of after] by (simp add: rest_def newline_def)
    have "\<not> str_includes head plus_actual"
      unfolding head_def using lines h(1,2) by (intro head_lines_exclude nl) simp
    then have hn: "\<not> (\<exists>pre post. head = pre @ ''+ actual'' @ post)"
      by (simp add: includes_iff plus_actual_def)
    have lo: "\<exists>pre post. l = pre @ ''+ actual'' @ post"
      using h(3) by (simp add: includes_iff plus_actual_def)
    have "tryMakeMarkdown m
        = MarkdownString (join_newline (before @ ''```diff'' # (after @ [''```''])))"
      using h(1,4)
      by (simp add: tryMakeMarkdown_def Let_def splice1_def push_def diff_fence_def
          close_fence_def)
    also have "join_newline (before @ ''```diff'' # (after @ [''```'']))
        = head @ ''```diff'' @ rest @ CHR 0x0A # ''```''"
      unfolding join_newline_decompose head_def rest_def by (simp add: newline_def)
    finally have r: "tryMakeMarkdown m
        = MarkdownString (head @ ''```diff'' @ rest @ CHR 0x0A # ''```'')" .
    show ?thesis
      by (intro exI [of _ head] exI [of _ l] exI [of _ rest] conjI m he ln re hn lo r)
  qed
  have d: "(\<exists>pre post. m = pre @ ''+ actual'' @ post)
        \<longleftrightarrow> (\<exists>l \<in> set (split_newline m). \<exists>pre post. l = pre @ ''+ actual'' @ post)"
    using by_lines by (simp add: includes_iff plus_actual_def)
  have e: "\<forall>l \<in> set (split_newline m). CHR 0x0A \<notin> set l"
    using split_newline_lines [of _ m] by (auto simp: newline_def)
  have c': "(\<exists>pre post. m = pre @ ''+ actual'' @ post) \<longrightarrow>
        (\<exists>head l rest.
            m = head @ l @ rest
          \<and> (head = [] \<or> last head = CHR 0x0A)
          \<and> CHR 0x0A \<notin> set l
          \<and> (rest = [] \<or> hd rest = CHR 0x0A)
          \<and> \<not> (\<exists>pre post. head = pre @ ''+ actual'' @ post)
          \<and> (\<exists>pre post. l = pre @ ''+ actual'' @ post)
          \<and> tryMakeMarkdown m
              = MarkdownString (head @ ''```diff'' @ rest @ CHR 0x0A # ''```''))"
    by (rule impI) (rule c)
  show ?thesis
    by (intro conjI a b c' d e join_split_newline)
qed

theorem tryMakeMarkdown_spec_witness:
  "\<not> (\<exists>pre post. ''plain'' = pre @ ''+ actual'' @ post)
   \<and> tryMakeMarkdown ''plain'' = PlainText ''plain''
   \<and> (\<exists>pre post. ''a'' @ CHR 0x0A # ''+ actual'' @ CHR 0x0A # ''b'' = pre @ ''+ actual'' @ post)
   \<and> (\<exists>head l rest.
          ''a'' @ CHR 0x0A # ''+ actual'' @ CHR 0x0A # ''b'' = head @ l @ rest
        \<and> (head = [] \<or> last head = CHR 0x0A)
        \<and> CHR 0x0A \<notin> set l
        \<and> (rest = [] \<or> hd rest = CHR 0x0A)
        \<and> \<not> (\<exists>pre post. head = pre @ ''+ actual'' @ post)
        \<and> (\<exists>pre post. l = pre @ ''+ actual'' @ post)
        \<and> tryMakeMarkdown (''a'' @ CHR 0x0A # ''+ actual'' @ CHR 0x0A # ''b'')
            = MarkdownString (head @ ''```diff'' @ rest @ CHR 0x0A # ''```''))
   \<and> tryMakeMarkdown (''a'' @ CHR 0x0A # ''+ actual'' @ CHR 0x0A # ''b'')
       = MarkdownString (''a'' @ CHR 0x0A # ''```diff'' @ CHR 0x0A # ''b'' @ CHR 0x0A # ''```'')"
proof -
  have "\<not> str_includes ''plain'' ''+ actual''" by simp
  then have x: "\<not> (\<exists>pre post. ''plain'' = pre @ ''+ actual'' @ post)"
    unfolding includes_iff .
  have q: "tryMakeMarkdown ''plain'' = PlainText ''plain''"
    using tryMakeMarkdown_spec [of "''plain''", THEN conjunct1, THEN iffD2, OF x] .
  have "''a'' @ CHR 0x0A # ''+ actual'' @ CHR 0x0A # ''b''
      = (''a'' @ [CHR 0x0A]) @ ''+ actual'' @ (CHR 0x0A # ''b'')"
    by simp
  then have h: "\<exists>pre post. ''a'' @ CHR 0x0A # ''+ actual'' @ CHR 0x0A # ''b''
      = pre @ ''+ actual'' @ post" by (intro exI)
  note r = tryMakeMarkdown_spec [of "''a'' @ CHR 0x0A # ''+ actual'' @ CHR 0x0A # ''b''",
      THEN conjunct2, THEN conjunct2, THEN conjunct1, rule_format, OF h]
  have v: "tryMakeMarkdown (''a'' @ CHR 0x0A # ''+ actual'' @ CHR 0x0A # ''b'')
       = MarkdownString (''a'' @ CHR 0x0A # ''```diff'' @ CHR 0x0A # ''b'' @ CHR 0x0A # ''```'')"
    by (simp add: tryMakeMarkdown_def Let_def newline_def plus_actual_def splice1_def
        push_def diff_fence_def close_fence_def)
  from x q h r v show ?thesis by (intro conjI)
qed

section \<open>Properties of the location resolver\<close>

























section \<open>Properties of the run scanner\<close>

text \<open>
  C9. A pass or fail event whose title is not in the pending index only appends its
  log line: the handler returns the state it was given with that one line added, so
  the index, the calls on the run request, the promise, the scanner and the resolutions
  in flight are as before. The same holds when the event is delivered through the
  scanner.
\<close>

theorem unknown_title_only_logs:
  "(tests s (fullTitle p) = None \<longrightarrow>
      onMochaEvent (Pass p) s
        = s\<lparr>output_lines := output_lines s @ [pass_mark @ fullTitle p]\<rparr>)
   \<and> (tests s (fullTitle f) = None \<longrightarrow>
      onMochaEvent (Fail f) s
        = s\<lparr>output_lines := output_lines s @ [fail_mark @ fullTitle f]\<rparr>)
   \<and> (tests s (fullTitle p) = None \<and> \<not> finally_queued s \<longrightarrow>
      deliver h (MochaEvent (Pass p)) s
        = (if OnMochaEvent \<in> set (subscriptions s)
           then s\<lparr>output_lines := output_lines s @ [pass_mark @ fullTitle p]\<rparr> else s))
   \<and> (tests s (fullTitle f) = None \<and> \<not> finally_queued s \<longrightarrow>
      deliver h (MochaEvent (Fail f)) s
        = (if OnMochaEvent \<in> set (subscriptions s)
           then s\<lparr>output_lines := output_lines s @ [fail_mark @ fullTitle f]\<rparr> else s))"
  by (simp add: Let_def appendLine_def deliver_def finally_job_def)

theorem unknown_title_only_logs_witness:
  "tests example_scan (fullTitle passOther) = None
   \<and> tests example_scan (fullTitle failOther) = None
   \<and> \<not> finally_queued example_scan
   \<and> onMochaEvent (Pass passOther) example_scan
       = example_scan\<lparr>output_lines := [pass_mark @ ''other'']\<rparr>
   \<and> onMochaEvent (Fail failOther) example_scan
       = example_scan\<lparr>output_lines := [fail_mark @ ''other'']\<rparr>
   \<and> deliver example_host (MochaEvent (Pass passOther)) example_scan
       = example_scan\<lparr>output_lines := [pass_mark @ ''other'']\<rparr>
   \<and> deliver example_host (MochaEvent (Fail failOther)) example_scan
       = example_scan\<lparr>output_lines := [fail_mark @ ''other'']\<rparr>"
proof -
  have a: "tests example_scan (fullTitle passOther) = None"
    by (simp add: example_scan_def scanTestOutput_def fresh_run_def example_pending_def
        passOther_def)
  have b: "tests example_scan (fullTitle failOther) = None"
    by (simp add: example_scan_def scanTestOutput_def fresh_run_def example_pending_def
        failOther_def)
  have c: "\<not> finally_queued example_scan"
    by (simp add: example_scan_def scanTestOutput_def fresh_run_def)
  have d: "OnMochaEvent \<in> set (subscriptions example_scan)"
    by (simp add: example_scan_def scanTestOutput_def fresh_run_def)
  have e: "output_lines example_scan = []"
    by (simp add: example_scan_def scanTestOutput_def fresh_run_def)
  have f: "fullTitle passOther = ''other''" "fullTitle failOther = ''other''"
    by (simp_all add: passOther_def failOther_def)
  from unknown_title_only_logs [of example_scan passOther failOther example_host] a b c d
  show ?thesis unfolding e f by simp
qed

lemma deliver_idle:
  "subscriptions s = [] \<Longrightarrow> resolving s = [] \<Longrightarrow> \<not> finally_queued s \<Longrightarrow> deliver h e s = s"
  by (cases e) (simp_all add: deliver_def finally_job_def)

lemma deliver_all_idle:
  "subscriptions s = [] \<Longrightarrow> resolving s = [] \<Longrightarrow> \<not> finally_queued s \<Longrightarrow>
   deliver_all h es s = s"
  by (induction es) (simp_all add: deliver_idle)

text \<open>
  C6. When cancellation is already requested at entry, the scan disposes the scanner
  once and is settled with \<open>Skipped\<close>; it registers no handler, so whatever the
  token, the scanner or a resolution does afterwards leaves the state as it is.
\<close>

theorem cancelled_on_entry:
  "scanTestOutput True (fresh_run out pending)
     = (fresh_run out pending)\<lparr>settled := Some Skipped, disposed := 1\<rparr>
   \<and> subscriptions (scanTestOutput True (fresh_run out pending)) = []
   \<and> deliver_all h es (scanTestOutput True (fresh_run out pending))
     = scanTestOutput True (fresh_run out pending)"
proof -
  let ?s = "scanTestOutput True (fresh_run out pending)"
  have a: "?s = (fresh_run out pending)\<lparr>settled := Some Skipped, disposed := 1\<rparr>"
    by (simp add: scanTestOutput_def scanner_dispose_def fresh_run_def)
  have b: "subscriptions ?s = []" "resolving ?s = []" "\<not> finally_queued ?s"
    by (simp_all add: scanTestOutput_def scanner_dispose_def fresh_run_def)
  from a b deliver_all_idle [OF b, of h es] show ?thesis by simp
qed

lemma fire_LocationSettled:
  "k < length (resolving s) \<Longrightarrow>
   snd (tryDeriveLocation h (locating (resolving s ! k))) = Fulfilled loc \<Longrightarrow>
   fire h (LocationSettled k) s =
     location_then (resolving s ! k) loc
       (s\<lparr>console := console s @ fst (tryDeriveLocation h (locating (resolving s ! k))),
          resolving := take k (resolving s) @ drop (Suc k) (resolving s)\<rparr>)"
  by (simp add: Let_def)

lemma fire_LocationSettled_rejected:
  "k < length (resolving s) \<Longrightarrow>
   snd (tryDeriveLocation h (locating (resolving s ! k))) = Rejected e \<Longrightarrow>
   fire h (LocationSettled k) s =
     s\<lparr>console := console s @ fst (tryDeriveLocation h (locating (resolving s ! k))),
       resolving := take k (resolving s) @ drop (Suc k) (resolving s)\<rparr>"
  by (simp add: Let_def)

lemma location_then_messages:
  "appendedMessages (location_then p loc s) =
     appendedMessages s @
       [(tcase p,
         \<lparr>message = tryMakeMarkdown (err (failure p)),
          location = Some (nullish loc (testFirstLine p)),
          actualOutput = Some (String_of (actual (failure p))),
          expectedOutput = Some (String_of (expected (failure p)))\<rparr>)]"
  by (simp add: location_then_def Let_def appendLine_def setState_def appendMessage_def
      TestMessage_new_def)

lemma location_then_setStates:
  "setStates (location_then p loc s) =
     setStates s @ [(tcase p, Failed, duration (failure p))]"
  by (simp add: location_then_def Let_def appendLine_def setState_def appendMessage_def)

lemma location_then_others:
  "settled (location_then p loc s) = settled s"
  "finally_queued (location_then p loc s) = finally_queued s"
  "disposed (location_then p loc s) = disposed s"
  "tests (location_then p loc s) = tests s"
  "resolving (location_then p loc s) = resolving s"
  "subscriptions (location_then p loc s) = subscriptions s"
  "shown (location_then p loc s) = shown s"
  by (simp_all add: location_then_def Let_def appendLine_def setState_def appendMessage_def)

lemma onMochaEvent_Fail_found:
  "tests s (fullTitle f) = Some tc \<Longrightarrow>
   onMochaEvent (Fail f) s =
     s\<lparr>output_lines := output_lines s @ [fail_mark @ fullTitle f],
       tests := (tests s)(fullTitle f := None),
       resolving := resolving s @
         [\<lparr>tcase = tc,
           testFirstLine =
             Location (uri tc)
               (AtRange (Range (start (srcRange tc))
                               (Position (line (start (srcRange tc))) 100))),
           failure = f, locating = or_else (stack f) (err f)\<rparr>]\<rparr>"
  by (simp add: Let_def appendLine_def tests_delete_def)

text \<open>
  C5. A fail event whose title is in the pending index puts a resolution in flight that
  carries the span from the start of the case's declared range to column 100 of the same
  line. When a resolution completes with absent, the message appended to its case has
  that span as location; with any result it completes with, the location is defined.
  The resolver completes with absent when the pattern does not match and when the source
  map cannot be loaded.
\<close>

theorem fallback_location:
  "(tests s (fullTitle f) = Some tc \<longrightarrow>
      resolving (onMochaEvent (Fail f) s) = resolving s @
        [\<lparr>tcase = tc,
          testFirstLine =
            Location (uri tc)
              (AtRange (Range (start (srcRange tc))
                              (Position (line (start (srcRange tc))) 100))),
          failure = f, locating = or_else (stack f) (err f)\<rparr>])
   \<and> (k < length (resolving s)
        \<and> snd (tryDeriveLocation h (locating (resolving s ! k))) = Fulfilled v \<longrightarrow>
        (\<exists>m. appendedMessages (deliver h (LocationSettled k) s)
               = appendedMessages s @ [(tcase (resolving s ! k), m)]
           \<and> location m \<noteq> None
           \<and> (v = None \<longrightarrow> location m = Some (testFirstLine (resolving s ! k)))))
   \<and> (tests s (fullTitle f) = Some tc
        \<and> snd (tryDeriveLocation h (or_else (stack f) (err f))) = Fulfilled None \<longrightarrow>
        (\<exists>m. appendedMessages
                (deliver h (LocationSettled (length (resolving s)))
                   (deliver h (MochaEvent (Fail f)) (s\<lparr>subscriptions := [OnMochaEvent]\<rparr>)))
               = appendedMessages s @ [(tc, m)]
           \<and> location m =
               Some (Location (uri tc)
                      (AtRange (Range (start (srcRange tc))
                                      (Position (line (start (srcRange tc))) 100))))))
   \<and> (regex_exec stk = None \<longrightarrow> snd (tryDeriveLocation h stk) = Fulfilled None)
   \<and> (regex_exec stk = Some (fileUri, ln, col)
        \<and> load_source_map h (fileUri @ ''.map'') = Inl e \<longrightarrow>
        snd (tryDeriveLocation h stk) = Fulfilled None)"
proof (intro conjI impI)
  assume "tests s (fullTitle f) = Some tc"
  then show "resolving (onMochaEvent (Fail f) s) = resolving s @
        [\<lparr>tcase = tc,
          testFirstLine =
            Location (uri tc)
              (AtRange (Range (start (srcRange tc))
                              (Position (line (start (srcRange tc))) 100))),
          failure = f, locating = or_else (stack f) (err f)\<rparr>]"
    by (simp add: onMochaEvent_Fail_found del: onMochaEvent.simps)
next
  assume kv: "k < length (resolving s)
        \<and> snd (tryDeriveLocation h (locating (resolving s ! k))) = Fulfilled v"
  then have k: "k < length (resolving s)"
    and v: "snd (tryDeriveLocation h (locating (resolving s ! k))) = Fulfilled v" by simp_all
  let ?p = "resolving s ! k"
  let ?m = "\<lparr>message = tryMakeMarkdown (err (failure ?p)),
          location = Some (nullish v (testFirstLine ?p)),
          actualOutput = Some (String_of (actual (failure ?p))),
          expectedOutput = Some (String_of (expected (failure ?p)))\<rparr>"
  have "appendedMessages (deliver h (LocationSettled k) s)
      = appendedMessages s @ [(tcase ?p, ?m)]"
    by (simp add: deliver_def finally_job_def scanner_dispose_def
        fire_LocationSettled [OF k v] location_then_messages del: fire.simps)
  then have "appendedMessages (deliver h (LocationSettled k) s)
               = appendedMessages s @ [(tcase ?p, ?m)]
           \<and> location ?m \<noteq> None
           \<and> (v = None \<longrightarrow> location ?m = Some (testFirstLine ?p))"
    by (simp add: nullish_def)
  then show "\<exists>m. appendedMessages (deliver h (LocationSettled k) s)
               = appendedMessages s @ [(tcase ?p, m)]
           \<and> location m \<noteq> None
           \<and> (v = None \<longrightarrow> location m = Some (testFirstLine ?p))"
    by (rule exI)
next
  assume a: "tests s (fullTitle f) = Some tc
        \<and> snd (tryDeriveLocation h (or_else (stack f) (err f))) = Fulfilled None"
  let ?s0 = "s\<lparr>subscriptions := [OnMochaEvent]\<rparr>"
  let ?fl = "Location (uri tc)
               (AtRange (Range (start (srcRange tc))
                               (Position (line (start (srcRange tc))) 100)))"
  let ?p = "\<lparr>tcase = tc, testFirstLine = ?fl, failure = f,
             locating = or_else (stack f) (err f)\<rparr>"
  let ?s1 = "deliver h (MochaEvent (Fail f)) ?s0"
  have t: "tests ?s0 (fullTitle f) = Some tc" using a by simp
  have r1: "resolving ?s1 = resolving s @ [?p]"
    by (simp add: deliver_def finally_job_def scanner_dispose_def
        onMochaEvent_Fail_found [OF t] del: onMochaEvent.simps)
  have m1: "appendedMessages ?s1 = appendedMessages s"
    by (simp add: deliver_def finally_job_def scanner_dispose_def
        onMochaEvent_Fail_found [OF t] del: onMochaEvent.simps)
  have k: "length (resolving s) < length (resolving ?s1)" using r1 by simp
  have nth: "resolving ?s1 ! length (resolving s) = ?p" using r1 by simp
  let ?m = "\<lparr>message = tryMakeMarkdown (err f),
             location = Some (nullish None ?fl),
             actualOutput = Some (String_of (actual f)),
             expectedOutput = Some (String_of (expected f))\<rparr>"
  have "appendedMessages (deliver h (LocationSettled (length (resolving s))) ?s1)
      = appendedMessages s @ [(tc, ?m)]"
  proof -
    have v: "snd (tryDeriveLocation h (locating (resolving ?s1 ! length (resolving s))))
        = Fulfilled None"
      using a nth by simp
    show ?thesis
      using nth m1
      by (simp add: deliver_def [of h "LocationSettled (length (resolving s))"]
          finally_job_def scanner_dispose_def
          fire_LocationSettled [OF k v] location_then_messages del: fire.simps)
  qed
  then have "appendedMessages
                (deliver h (LocationSettled (length (resolving s))) ?s1)
               = appendedMessages s @ [(tc, ?m)]
           \<and> location ?m = Some ?fl"
    by (simp add: nullish_def)
  then show "\<exists>m. appendedMessages
                (deliver h (LocationSettled (length (resolving s))) ?s1)
               = appendedMessages s @ [(tc, m)]
           \<and> location m = Some ?fl"
    by (rule exI)
next
  assume "regex_exec stk = None"
  then show "snd (tryDeriveLocation h stk) = Fulfilled None"
    by (simp add: tryDeriveLocation_def)
next
  assume "regex_exec stk = Some (fileUri, ln, col)
        \<and> load_source_map h (fileUri @ ''.map'') = Inl e"
  then show "snd (tryDeriveLocation h stk) = Fulfilled None"
    by (simp add: tryDeriveLocation_def)
qed

theorem fallback_location_witness:
  "tests example_scan (fullTitle failB) = Some caseB
   \<and> regex_exec ''boom'' = None
   \<and> snd (tryDeriveLocation example_host (or_else (stack failB) (err failB))) = Fulfilled None
   \<and> resolving (onMochaEvent (Fail failB) example_scan) =
        [\<lparr>tcase = caseB,
          testFirstLine = Location ''file:///w/a.test.ts''
                            (AtRange (Range (Position 9 2) (Position 9 100))),
          failure = failB, locating = ''boom''\<rparr>]
   \<and> map (\<lambda>(tc, m). (tc, location m))
         (appendedMessages
            (deliver example_host (LocationSettled 0) (onMochaEvent (Fail failB) example_scan)))
       = [(caseB, Some (Location ''file:///w/a.test.ts''
                          (AtRange (Range (Position 9 2) (Position 9 100)))))]
   \<and> regex_exec ''file:///b.js:1:2'' = Some (''file:///b.js'', ''1'', ''2'')
   \<and> load_source_map example_host ''file:///b.js.map'' = Inl (Error ''ENOENT'')
   \<and> snd (tryDeriveLocation example_host ''file:///b.js:1:2'') = Fulfilled None"
proof -
  let ?fl = "Location ''file:///w/a.test.ts'' (AtRange (Range (Position 9 2) (Position 9 100)))"
  let ?s1 = "onMochaEvent (Fail failB) example_scan"
  have a: "tests example_scan (fullTitle failB) = Some caseB"
    by (simp add: example_scan_def scanTestOutput_def fresh_run_def example_pending_def
        failB_def)
  have b: "regex_exec ''boom'' = None"
    by (simp add: match_here_def file_scheme_def)
  have o: "or_else (stack failB) (err failB) = ''boom''"
    by (simp add: or_else_def failB_def)
  have c: "uri caseB = ''file:///w/a.test.ts''" "start (srcRange caseB) = Position 9 2"
    by (simp_all add: caseB_def)
  have e: "resolving example_scan = []" "appendedMessages example_scan = []"
    by (simp_all add: example_scan_def scanTestOutput_def fresh_run_def)
  note T = fallback_location [of example_scan failB caseB 0 example_host None "''boom''"]
  have r: "resolving ?s1 = [\<lparr>tcase = caseB, testFirstLine = ?fl, failure = failB,
                             locating = ''boom''\<rparr>]"
    using T [THEN conjunct1, rule_format, OF a] unfolding o c e
    by (simp del: onMochaEvent.simps)
  have d: "snd (tryDeriveLocation example_host ''boom'') = Fulfilled None"
    using T [THEN conjunct2, THEN conjunct2, THEN conjunct2, THEN conjunct1, rule_format, OF b] .
  have k: "0 < length (resolving ?s1)" unfolding r by simp
  have m0: "appendedMessages ?s1 = []"
    using e(2) by (simp add: onMochaEvent_Fail_found [OF a] del: onMochaEvent.simps)
  have n0: "resolving ?s1 ! 0 = \<lparr>tcase = caseB, testFirstLine = ?fl, failure = failB,
                                   locating = ''boom''\<rparr>"
    unfolding r by simp
  have l0: "locating (resolving ?s1 ! 0) = ''boom''"
    "tcase (resolving ?s1 ! 0) = caseB" "testFirstLine (resolving ?s1 ! 0) = ?fl"
    unfolding n0 by simp_all
  have d0: "snd (tryDeriveLocation example_host (locating (resolving ?s1 ! 0))) = Fulfilled None"
    unfolding l0 by (rule d)
  from fallback_location [of ?s1 failB caseB 0 example_host None,
      THEN conjunct2, THEN conjunct1, rule_format, OF conjI, OF k d0]
  obtain m where m: "appendedMessages (deliver example_host (LocationSettled 0) ?s1)
        = appendedMessages ?s1 @ [(tcase (resolving ?s1 ! 0), m)]
      \<and> location m \<noteq> None
      \<and> (None = (None :: Location option) \<longrightarrow>
           location m = Some (testFirstLine (resolving ?s1 ! 0)))" ..
  from m [THEN conjunct1] have m1: "appendedMessages (deliver example_host (LocationSettled 0) ?s1)
      = [(caseB, m)]"
    unfolding l0 m0 by simp
  from m [THEN conjunct2, THEN conjunct2] have m2: "location m = Some ?fl"
    unfolding l0 by simp
  from m1 m2 have f: "map (\<lambda>(tc, m). (tc, location m))
        (appendedMessages (deliver example_host (LocationSettled 0) ?s1))
      = [(caseB, Some ?fl)]"
    by simp
  have g: "regex_exec ''file:///b.js:1:2'' = Some (''file:///b.js'', ''1'', ''2'')"
    by (simp add: match_here_def file_scheme_def match_tail_def terminator_at_def
        line_terminators_def is_digit_def Let_def)
  have i: "load_source_map example_host (''file:///b.js'' @ ''.map'') = Inl (Error ''ENOENT'')"
    by (simp add: load_source_map_def example_host_def)
  have j: "snd (tryDeriveLocation example_host ''file:///b.js:1:2'') = Fulfilled None"
    using fallback_location [of example_scan failB caseB 0 example_host None "''file:///b.js:1:2''"
      "''file:///b.js''" "''1''" "''2''" "Error ''ENOENT''",
      THEN conjunct2, THEN conjunct2, THEN conjunct2, THEN conjunct2, rule_format] g i
    by blast
  have i': "load_source_map example_host ''file:///b.js.map'' = Inl (Error ''ENOENT'')"
    using i by simp
  show ?thesis
    unfolding o
    by (intro conjI a b d r f g i' j)
qed

lemma fire_fields:
  "subscriptions (fire h e s) = subscriptions s"
  "disposed (fire h e s) = disposed s"
  "shown (fire h e s) = shown s"
proof -
  have a: "subscriptions (onMochaEvent evt s) = subscriptions s
     \<and> disposed (onMochaEvent evt s) = disposed s
     \<and> shown (onMochaEvent evt s) = shown s" for evt
    by (cases evt)
      (simp_all add: Let_def appendLine_def tests_delete_def setState_def resolve_def
        split: option.splits)
  show "subscriptions (fire h e s) = subscriptions s"
    using a by (cases e)
      (simp_all add: onCancellationRequested_def onRunnerError_def onOtherOutput_def
        resolve_def appendLine_def Let_def location_then_others del: onMochaEvent.simps
        split: settlement.splits)
  show "disposed (fire h e s) = disposed s"
    using a by (cases e)
      (simp_all add: onCancellationRequested_def onRunnerError_def onOtherOutput_def
        resolve_def appendLine_def Let_def location_then_others del: onMochaEvent.simps
        split: settlement.splits)
  show "shown (fire h e s) = shown s"
    using a by (cases e)
      (simp_all add: onCancellationRequested_def onRunnerError_def onOtherOutput_def
        resolve_def appendLine_def Let_def location_then_others del: onMochaEvent.simps
        split: settlement.splits)
qed

lemma onMochaEvent_settled:
  "settled (onMochaEvent evt s) =
     (case settled s of Some v \<Rightarrow> Some v | None \<Rightarrow> outcome_of (MochaEvent evt))"
  by (cases evt)
    (simp_all add: Let_def appendLine_def tests_delete_def setState_def resolve_def
      split: option.splits)

lemma onMochaEvent_finally_queued:
  "finally_queued (onMochaEvent evt s) =
     (finally_queued s \<or> (settled s = None \<and> outcome_of (MochaEvent evt) \<noteq> None))"
  by (cases evt)
    (auto simp: Let_def appendLine_def tests_delete_def setState_def resolve_def
      split: option.splits)

lemma fire_settled:
  "all_subscribed s \<Longrightarrow>
   settled (fire h e s) = (case settled s of Some v \<Rightarrow> Some v | None \<Rightarrow> outcome_of e)"
  by (cases e)
    (simp_all add: all_subscribed_def onCancellationRequested_def onRunnerError_def
      onOtherOutput_def resolve_def appendLine_def Let_def location_then_others
      onMochaEvent_settled
      del: onMochaEvent.simps split: option.splits settlement.splits)

lemma fire_finally_queued:
  "all_subscribed s \<Longrightarrow>
   finally_queued (fire h e s) = (finally_queued s \<or> (settled s = None \<and> outcome_of e \<noteq> None))"
  by (cases e)
    (auto simp: all_subscribed_def onCancellationRequested_def onRunnerError_def
      onOtherOutput_def resolve_def appendLine_def Let_def location_then_others
      onMochaEvent_finally_queued
      simp del: onMochaEvent.simps split: option.splits settlement.splits)

lemma deliver_fields:
  "subscriptions (deliver h e s) = subscriptions s"
  "finally_queued (deliver h e s) = False"
  "shown (deliver h e s) = shown s"
  by (simp_all add: deliver_def finally_job_def scanner_dispose_def fire_fields)

lemma deliver_settled:
  "all_subscribed s \<Longrightarrow>
   settled (deliver h e s) = (case settled s of Some v \<Rightarrow> Some v | None \<Rightarrow> outcome_of e)"
  by (simp add: deliver_def finally_job_def scanner_dispose_def fire_settled
      fire_finally_queued)

lemma deliver_disposed:
  "all_subscribed s \<Longrightarrow> \<not> finally_queued s \<Longrightarrow>
   disposed (deliver h e s) =
     (if settled s = None \<and> outcome_of e \<noteq> None then Suc (disposed s) else disposed s)"
  by (simp add: deliver_def finally_job_def scanner_dispose_def fire_settled
      fire_finally_queued fire_fields)

lemma all_subscribed_deliver: "all_subscribed s \<Longrightarrow> all_subscribed (deliver h e s)"
  by (simp add: all_subscribed_def deliver_fields)

lemma first_outcome_append:
  "first_outcome (es @ es') =
     (case first_outcome es of Some v \<Rightarrow> Some v | None \<Rightarrow> first_outcome es')"
  by (induction es) (simp_all split: option.splits)

lemma deliver_all_append:
  "deliver_all h (es @ es') s = deliver_all h es' (deliver_all h es s)"
  by (induction es arbitrary: s) simp_all

lemma deliver_all_scan:
  "all_subscribed s \<Longrightarrow> \<not> finally_queued s \<Longrightarrow>
   settled (deliver_all h es s)
     = (case settled s of Some v \<Rightarrow> Some v | None \<Rightarrow> first_outcome es)
   \<and> disposed (deliver_all h es s)
     = (if settled s = None \<and> first_outcome es \<noteq> None then Suc (disposed s) else disposed s)
   \<and> \<not> finally_queued (deliver_all h es s)
   \<and> all_subscribed (deliver_all h es s)"
proof (induction es arbitrary: s)
  case Nil
  then show ?case by (simp split: option.splits)
next
  case (Cons e es)
  have a: "all_subscribed (deliver h e s)" "\<not> finally_queued (deliver h e s)"
    using Cons.prems by (simp_all add: all_subscribed_deliver deliver_fields)
  from Cons.IH [OF a] Cons.prems show ?case
    by (simp add: deliver_settled deliver_disposed split: option.splits)
qed

lemma scanTestOutput_subscribes:
  "all_subscribed (scanTestOutput False (fresh_run out pending))"
  "\<not> finally_queued (scanTestOutput False (fresh_run out pending))"
  "settled (scanTestOutput False (fresh_run out pending)) = None"
  "disposed (scanTestOutput False (fresh_run out pending)) = 0"
  by (auto simp: all_subscribed_def scanTestOutput_def fresh_run_def)

text \<open>
  C2. Through any sequence of happenings the promise of a scan holds the outcome of
  the first settling one and keeps it: \<open>Skipped\<close> for the \<^verbatim>\<open>end\<close> event and for
  cancellation alike, \<open>Errored\<close> for a runner fault. The scanner has been disposed
  exactly once if the promise is settled, on the entry path too, and not at all
  otherwise.
\<close>

theorem settles_once_and_disposes:
  "settled (deliver_all h es (scanTestOutput c (fresh_run out pending)))
     = (if c then Some Skipped else first_outcome es)
   \<and> disposed (deliver_all h es (scanTestOutput c (fresh_run out pending)))
     = (if c \<or> first_outcome es \<noteq> None then 1 else 0)
   \<and> (settled (deliver_all h es (scanTestOutput c (fresh_run out pending))) = Some v \<longrightarrow>
        settled (deliver_all h (es @ es') (scanTestOutput c (fresh_run out pending))) = Some v
      \<and> disposed (deliver_all h (es @ es') (scanTestOutput c (fresh_run out pending))) = 1)
   \<and> outcome_of (MochaEvent End) = Some Skipped
   \<and> outcome_of CancellationRequested = Some Skipped
   \<and> outcome_of (RunnerError x) = Some Errored"
proof (cases c)
  case True
  let ?s = "scanTestOutput True (fresh_run out pending)"
  have b: "subscriptions ?s = []" "resolving ?s = []" "\<not> finally_queued ?s"
    by (simp_all add: scanTestOutput_def scanner_dispose_def fresh_run_def)
  have s: "settled ?s = Some Skipped" "disposed ?s = 1"
    by (simp_all add: scanTestOutput_def scanner_dispose_def fresh_run_def)
  from True s show ?thesis by (simp add: deliver_all_idle [OF b])
next
  case False
  let ?s = "scanTestOutput False (fresh_run out pending)"
  note sub = scanTestOutput_subscribes [of out pending]
  from deliver_all_scan [OF sub(1,2), of h es] sub(3,4)
  have a: "settled (deliver_all h es ?s) = first_outcome es"
    "disposed (deliver_all h es ?s) = (if first_outcome es \<noteq> None then 1 else 0)"
    by simp_all
  from deliver_all_scan [OF sub(1,2), of h "es @ es'"] sub(3,4)
  have b: "settled (deliver_all h (es @ es') ?s) = first_outcome (es @ es')"
    "disposed (deliver_all h (es @ es') ?s) = (if first_outcome (es @ es') \<noteq> None then 1 else 0)"
    by simp_all
  from False a b show ?thesis
    by (simp add: first_outcome_append)
qed

theorem settles_once_and_disposes_witness:
  "settled (deliver_all example_host [MochaEvent (Pass passOther), MochaEvent End]
             (scanTestOutput False (fresh_run [] example_pending))) = Some Skipped
   \<and> settled (deliver_all example_host
               ([MochaEvent (Pass passOther), MochaEvent End]
                  @ [RunnerError ''crash'', CancellationRequested])
               (scanTestOutput False (fresh_run [] example_pending))) = Some Skipped
   \<and> disposed (deliver_all example_host
               ([MochaEvent (Pass passOther), MochaEvent End]
                  @ [RunnerError ''crash'', CancellationRequested])
               (scanTestOutput False (fresh_run [] example_pending))) = 1"
proof -
  note T = settles_once_and_disposes [of example_host
      "[MochaEvent (Pass passOther), MochaEvent End]" False "[]" example_pending Skipped
      "[RunnerError ''crash'', CancellationRequested]"]
  have a: "settled (deliver_all example_host [MochaEvent (Pass passOther), MochaEvent End]
             (scanTestOutput False (fresh_run [] example_pending))) = Some Skipped"
    using T [THEN conjunct1] by simp
  from T [THEN conjunct2, THEN conjunct2, THEN conjunct1, rule_format, OF a] a
  show ?thesis by simp
qed

lemma deliver_LocationSettled_effect:
  assumes "k < length (resolving s)"
    and "snd (tryDeriveLocation h (locating (resolving s ! k))) = Fulfilled v"
  shows "setStates (deliver h (LocationSettled k) s)
           = setStates s @ [(tcase (resolving s ! k), Failed, duration (failure (resolving s ! k)))]"
    and "appendedMessages (deliver h (LocationSettled k) s)
           = appendedMessages s @
               [(tcase (resolving s ! k),
                 \<lparr>message = tryMakeMarkdown (err (failure (resolving s ! k))),
                  location = Some (nullish v (testFirstLine (resolving s ! k))),
                  actualOutput = Some (String_of (actual (failure (resolving s ! k)))),
                  expectedOutput = Some (String_of (expected (failure (resolving s ! k))))\<rparr>)]"
    and "settled (deliver h (LocationSettled k) s) = settled s"
    and "resolving (deliver h (LocationSettled k) s)
           = take k (resolving s) @ drop (Suc k) (resolving s)"
    and "tests (deliver h (LocationSettled k) s) = tests s"
  by (simp_all add: deliver_def finally_job_def scanner_dispose_def fire_LocationSettled [OF assms]
      location_then_messages location_then_setStates location_then_others del: fire.simps)

lemma deliver_Fail_found:
  assumes "tests s (fullTitle f) = Some tc" "OnMochaEvent \<in> set (subscriptions s)"
  shows "resolving (deliver h (MochaEvent (Fail f)) s) = resolving s @
           [\<lparr>tcase = tc,
             testFirstLine =
               Location (uri tc)
                 (AtRange (Range (start (srcRange tc))
                                 (Position (line (start (srcRange tc))) 100))),
             failure = f, locating = or_else (stack f) (err f)\<rparr>]"
    and "setStates (deliver h (MochaEvent (Fail f)) s) = setStates s"
    and "appendedMessages (deliver h (MochaEvent (Fail f)) s) = appendedMessages s"
    and "tests (deliver h (MochaEvent (Fail f)) s) = (tests s)(fullTitle f := None)"
  using assms(2)
  by (simp_all add: deliver_def finally_job_def scanner_dispose_def
      onMochaEvent_Fail_found [OF assms(1)] del: onMochaEvent.simps)

lemma deliver_settling_keeps:
  assumes "outcome_of e \<noteq> None"
  shows "resolving (deliver h e s) = resolving s"
    and "setStates (deliver h e s) = setStates s"
    and "appendedMessages (deliver h e s) = appendedMessages s"
    and "tests (deliver h e s) = tests s"
proof -
  have "resolving (fire h e s) = resolving s \<and> setStates (fire h e s) = setStates s
      \<and> appendedMessages (fire h e s) = appendedMessages s \<and> tests (fire h e s) = tests s"
  proof (cases e)
    case (MochaEvent evt)
    with assms have "evt = End" by (cases evt) simp_all
    with MochaEvent show ?thesis by (simp add: resolve_def)
  next
    case (LocationSettled k)
    with assms show ?thesis by simp
  qed (simp_all add: onCancellationRequested_def onRunnerError_def onOtherOutput_def
      resolve_def appendLine_def)
  then show "resolving (deliver h e s) = resolving s"
    and "setStates (deliver h e s) = setStates s"
    and "appendedMessages (deliver h e s) = appendedMessages s"
    and "tests (deliver h e s) = tests s"
    by (simp_all add: deliver_def finally_job_def scanner_dispose_def)
qed

text \<open>
  C10. The completion of a location resolution with a value, which is what runs the
  callback, runs it whatever the state of the scan's promise: the message is appended
  and the case is set to \<open>Failed\<close>. So after a matched fail event and then
  cancellation, a runner fault or the \<^verbatim>\<open>end\<close> event, the scan is settled and the
  scanner disposed with the case untouched, and the completion that follows still
  appends the message and sets the case.
\<close>

theorem late_failure_unguarded:
  "(k < length (resolving s)
      \<and> snd (tryDeriveLocation h (locating (resolving s ! k))) = Fulfilled v \<longrightarrow>
      setStates (deliver h (LocationSettled k) s)
        = setStates s @ [(tcase (resolving s ! k), Failed, duration (failure (resolving s ! k)))]
    \<and> map fst (appendedMessages (deliver h (LocationSettled k) s))
        = map fst (appendedMessages s) @ [tcase (resolving s ! k)]
    \<and> settled (deliver h (LocationSettled k) s) = settled s)
   \<and> (tests s (fullTitle f) = Some tc \<and> all_subscribed s \<and> settled s = None
        \<and> \<not> finally_queued s
        \<and> e \<in> {CancellationRequested, RunnerError x, MochaEvent End} \<longrightarrow>
       settled (deliver h e (deliver h (MochaEvent (Fail f)) s)) = outcome_of e
     \<and> outcome_of e \<noteq> None
     \<and> disposed (deliver h e (deliver h (MochaEvent (Fail f)) s)) = Suc (disposed s)
     \<and> setStates (deliver h e (deliver h (MochaEvent (Fail f)) s)) = setStates s
     \<and> appendedMessages (deliver h e (deliver h (MochaEvent (Fail f)) s)) = appendedMessages s)
   \<and> (tests s (fullTitle f) = Some tc \<and> all_subscribed s \<and> settled s = None
        \<and> \<not> finally_queued s
        \<and> e \<in> {CancellationRequested, RunnerError x, MochaEvent End}
        \<and> snd (tryDeriveLocation h (or_else (stack f) (err f))) = Fulfilled w \<longrightarrow>
       setStates (deliver h (LocationSettled (length (resolving s)))
                    (deliver h e (deliver h (MochaEvent (Fail f)) s)))
         = setStates s @ [(tc, Failed, duration f)]
     \<and> map fst (appendedMessages (deliver h (LocationSettled (length (resolving s)))
                    (deliver h e (deliver h (MochaEvent (Fail f)) s))))
         = map fst (appendedMessages s) @ [tc])"
proof -
  have late: "settled (deliver h e (deliver h (MochaEvent (Fail f)) s)) = outcome_of e
     \<and> outcome_of e \<noteq> None
     \<and> disposed (deliver h e (deliver h (MochaEvent (Fail f)) s)) = Suc (disposed s)
     \<and> setStates (deliver h e (deliver h (MochaEvent (Fail f)) s)) = setStates s
     \<and> appendedMessages (deliver h e (deliver h (MochaEvent (Fail f)) s)) = appendedMessages s
     \<and> (snd (tryDeriveLocation h (or_else (stack f) (err f))) = Fulfilled w \<longrightarrow>
         setStates (deliver h (LocationSettled (length (resolving s)))
                    (deliver h e (deliver h (MochaEvent (Fail f)) s)))
           = setStates s @ [(tc, Failed, duration f)]
       \<and> map fst (appendedMessages (deliver h (LocationSettled (length (resolving s)))
                    (deliver h e (deliver h (MochaEvent (Fail f)) s))))
           = map fst (appendedMessages s) @ [tc])"
    if a: "tests s (fullTitle f) = Some tc \<and> all_subscribed s \<and> settled s = None
        \<and> \<not> finally_queued s
        \<and> e \<in> {CancellationRequested, RunnerError x, MochaEvent End}"
  proof -
    define s1 where "s1 = deliver h (MochaEvent (Fail f)) s"
    define s2 where "s2 = deliver h e s1"
    define p where "p = \<lparr>tcase = tc,
               testFirstLine =
                 Location (uri tc)
                   (AtRange (Range (start (srcRange tc))
                                   (Position (line (start (srcRange tc))) 100))),
               failure = f, locating = or_else (stack f) (err f)\<rparr>"
    from a have oe: "outcome_of e \<noteq> None" by auto
    from a have sub: "OnMochaEvent \<in> set (subscriptions s)" by (simp add: all_subscribed_def)
    from a have t: "tests s (fullTitle f) = Some tc" by simp
    note F = deliver_Fail_found [OF t sub, of h, folded s1_def p_def]
    have s1: "all_subscribed s1" "settled s1 = None" "\<not> finally_queued s1"
      "disposed s1 = disposed s"
      using a unfolding s1_def
      by (simp_all add: all_subscribed_deliver deliver_settled deliver_fields deliver_disposed)
    note K = deliver_settling_keeps [OF oe, of h s1, folded s2_def]
    have st: "settled s2 = outcome_of e" "disposed s2 = Suc (disposed s)"
      using s1 oe unfolding s2_def by (simp_all add: deliver_settled deliver_disposed)
    have r2: "resolving s2 = resolving s @ [p]" using K(1) F(1) by simp
    then have k: "length (resolving s) < length (resolving s2)"
      and nth: "resolving s2 ! length (resolving s) = p" by simp_all
    have l: "setStates (deliver h (LocationSettled (length (resolving s))) s2)
              = setStates s2 @ [(tc, Failed, duration f)]
        \<and> map fst (appendedMessages (deliver h (LocationSettled (length (resolving s))) s2))
              = map fst (appendedMessages s2) @ [tc]"
      if w: "snd (tryDeriveLocation h (or_else (stack f) (err f))) = Fulfilled w"
    proof -
      have w': "snd (tryDeriveLocation h (locating (resolving s2 ! length (resolving s))))
          = Fulfilled w"
        using w nth by (simp add: p_def)
      from deliver_LocationSettled_effect [OF k w'] nth show ?thesis
        by (simp add: p_def)
    qed
    have c1: "settled (deliver h e (deliver h (MochaEvent (Fail f)) s)) = outcome_of e"
      using st(1) by (simp add: s2_def s1_def)
    have c3: "disposed (deliver h e (deliver h (MochaEvent (Fail f)) s)) = Suc (disposed s)"
      using st(2) by (simp add: s2_def s1_def)
    have c4: "setStates (deliver h e (deliver h (MochaEvent (Fail f)) s)) = setStates s"
      using K(2) F(2) by (simp add: s2_def s1_def)
    have c5: "appendedMessages (deliver h e (deliver h (MochaEvent (Fail f)) s))
        = appendedMessages s"
      using K(3) F(3) by (simp add: s2_def s1_def)
    have c6: "snd (tryDeriveLocation h (or_else (stack f) (err f))) = Fulfilled w \<longrightarrow>
         setStates (deliver h (LocationSettled (length (resolving s)))
                    (deliver h e (deliver h (MochaEvent (Fail f)) s)))
           = setStates s @ [(tc, Failed, duration f)]
       \<and> map fst (appendedMessages (deliver h (LocationSettled (length (resolving s)))
                    (deliver h e (deliver h (MochaEvent (Fail f)) s))))
           = map fst (appendedMessages s) @ [tc]"
      using l K(2) K(3) F(2) F(3) by (simp add: s2_def s1_def)
    from c1 oe c3 c4 c5 c6 show ?thesis by (intro conjI)
  qed
  have first: "setStates (deliver h (LocationSettled k) s)
        = setStates s @ [(tcase (resolving s ! k), Failed, duration (failure (resolving s ! k)))]
    \<and> map fst (appendedMessages (deliver h (LocationSettled k) s))
        = map fst (appendedMessages s) @ [tcase (resolving s ! k)]
    \<and> settled (deliver h (LocationSettled k) s) = settled s"
    if k: "k < length (resolving s)"
      and v: "snd (tryDeriveLocation h (locating (resolving s ! k))) = Fulfilled v"
    using deliver_LocationSettled_effect [OF k v] by simp
  show ?thesis
  proof (intro conjI impI)
    assume "k < length (resolving s)
      \<and> snd (tryDeriveLocation h (locating (resolving s ! k))) = Fulfilled v"
    then have k: "k < length (resolving s)"
      and v: "snd (tryDeriveLocation h (locating (resolving s ! k))) = Fulfilled v"
      by simp_all
    from first [OF k v]
    show "setStates (deliver h (LocationSettled k) s)
        = setStates s @ [(tcase (resolving s ! k), Failed, duration (failure (resolving s ! k)))]"
      and "map fst (appendedMessages (deliver h (LocationSettled k) s))
        = map fst (appendedMessages s) @ [tcase (resolving s ! k)]"
      and "settled (deliver h (LocationSettled k) s) = settled s"
      by simp_all
  next
    assume a: "tests s (fullTitle f) = Some tc \<and> all_subscribed s \<and> settled s = None
        \<and> \<not> finally_queued s
        \<and> e \<in> {CancellationRequested, RunnerError x, MochaEvent End}"
    from late [OF a]
    show "settled (deliver h e (deliver h (MochaEvent (Fail f)) s)) = outcome_of e"
      and "outcome_of e \<noteq> None"
      and "disposed (deliver h e (deliver h (MochaEvent (Fail f)) s)) = Suc (disposed s)"
      and "setStates (deliver h e (deliver h (MochaEvent (Fail f)) s)) = setStates s"
      and "appendedMessages (deliver h e (deliver h (MochaEvent (Fail f)) s)) = appendedMessages s"
      by simp_all
  next
    assume b: "tests s (fullTitle f) = Some tc \<and> all_subscribed s \<and> settled s = None
        \<and> \<not> finally_queued s
        \<and> e \<in> {CancellationRequested, RunnerError x, MochaEvent End}
        \<and> snd (tryDeriveLocation h (or_else (stack f) (err f))) = Fulfilled w"
    then have a: "tests s (fullTitle f) = Some tc \<and> all_subscribed s \<and> settled s = None
        \<and> \<not> finally_queued s
        \<and> e \<in> {CancellationRequested, RunnerError x, MochaEvent End}"
      and w: "snd (tryDeriveLocation h (or_else (stack f) (err f))) = Fulfilled w"
      by simp_all
    from late [OF a] w
    show "setStates (deliver h (LocationSettled (length (resolving s)))
                    (deliver h e (deliver h (MochaEvent (Fail f)) s)))
         = setStates s @ [(tc, Failed, duration f)]"
      and "map fst (appendedMessages (deliver h (LocationSettled (length (resolving s)))
                    (deliver h e (deliver h (MochaEvent (Fail f)) s))))
         = map fst (appendedMessages s) @ [tc]"
      by simp_all
  qed
qed

theorem late_failure_unguarded_witness:
  "tests example_scan (fullTitle failB) = Some caseB
   \<and> all_subscribed example_scan \<and> settled example_scan = None
   \<and> \<not> finally_queued example_scan
   \<and> snd (tryDeriveLocation example_host (or_else (stack failB) (err failB))) = Fulfilled None
   \<and> settled (deliver example_host (MochaEvent End)
               (deliver example_host (MochaEvent (Fail failB)) example_scan)) = Some Skipped
   \<and> disposed (deliver example_host (MochaEvent End)
               (deliver example_host (MochaEvent (Fail failB)) example_scan)) = 1
   \<and> setStates (deliver example_host (MochaEvent End)
               (deliver example_host (MochaEvent (Fail failB)) example_scan)) = []
   \<and> setStates (deliver example_host (LocationSettled 0)
                 (deliver example_host (MochaEvent End)
                    (deliver example_host (MochaEvent (Fail failB)) example_scan)))
       = [(caseB, Failed, 7)]"
proof -
  have a: "tests example_scan (fullTitle failB) = Some caseB"
    by (simp add: example_scan_def scanTestOutput_def fresh_run_def example_pending_def
        failB_def)
  have b: "all_subscribed example_scan" "\<not> finally_queued example_scan"
    "settled example_scan = None" "disposed example_scan = 0"
    unfolding example_scan_def by (rule scanTestOutput_subscribes)+
  have e: "resolving example_scan = []" "setStates example_scan = []"
    by (simp_all add: example_scan_def scanTestOutput_def fresh_run_def)
  have d: "duration failB = 7" by (simp add: failB_def)
  have h: "tests example_scan (fullTitle failB) = Some caseB \<and> all_subscribed example_scan
      \<and> settled example_scan = None \<and> \<not> finally_queued example_scan
      \<and> MochaEvent End \<in> {CancellationRequested, RunnerError [], MochaEvent End}"
    using a b by simp
  have w: "snd (tryDeriveLocation example_host (or_else (stack failB) (err failB)))
      = Fulfilled None"
    by (simp add: or_else_def failB_def tryDeriveLocation_def match_here_def file_scheme_def)
  note T = late_failure_unguarded [of 0 example_scan example_host None failB caseB
      "MochaEvent End" "[]" None]
  note T2 = T [THEN conjunct2, THEN conjunct1, rule_format, OF h]
  have hw: "tests example_scan (fullTitle failB) = Some caseB \<and> all_subscribed example_scan
      \<and> settled example_scan = None \<and> \<not> finally_queued example_scan
      \<and> MochaEvent End \<in> {CancellationRequested, RunnerError [], MochaEvent End}
      \<and> snd (tryDeriveLocation example_host (or_else (stack failB) (err failB)))
          = Fulfilled None"
    using a b w by simp
  note T3 = T [THEN conjunct2, THEN conjunct2, rule_format, OF hw]
  from T2 T3 a b w show ?thesis unfolding e d by simp
qed


section \<open>Properties of the run coordinator\<close>

lemma after_scan_fields:
  "settled (after_scan v s) = settled s"
  "finally_queued (after_scan v s) = finally_queued s"
  "subscriptions (after_scan v s) = subscriptions s"
  "resolving (after_scan v s) = resolving s"
  "shown (after_scan v s) = (if v \<noteq> Skipped then Suc (shown s) else shown s)"
  by (simp_all add: after_scan_def output_show_def)

lemma job_step_scan:
  assumes "all_subscribed s" "\<not> finally_queued s"
  shows "settled (job_step h e s)
           = (case settled s of Some v \<Rightarrow> Some v | None \<Rightarrow> outcome_of e)"
    and "all_subscribed (job_step h e s)"
    and "\<not> finally_queued (job_step h e s)"
    and "shown s = focus_count (settled s) \<Longrightarrow>
         shown (job_step h e s) = focus_count (settled (job_step h e s))"
  using assms
  by (auto simp: job_step_def Let_def deliver_settled deliver_fields after_scan_fields
      all_subscribed_def focus_count_def split: option.splits)

lemma job_steps_scan:
  "all_subscribed s \<Longrightarrow> \<not> finally_queued s \<Longrightarrow> shown s = focus_count (settled s) \<Longrightarrow>
   settled (job_steps h es s)
     = (case settled s of Some v \<Rightarrow> Some v | None \<Rightarrow> first_outcome es)
   \<and> shown (job_steps h es s) = focus_count (settled (job_steps h es s))"
proof (induction es arbitrary: s)
  case Nil
  then show ?case by (simp split: option.splits)
next
  case (Cons e es)
  note S = job_step_scan [OF Cons.prems(1,2), of h e]
  from Cons.IH [OF S(2) S(3) S(4) [OF Cons.prems(3)]] S(1)
  show ?case by (simp split: option.splits)
qed

lemma job_step_idle:
  "subscriptions s = [] \<Longrightarrow> resolving s = [] \<Longrightarrow> \<not> finally_queued s \<Longrightarrow>
   settled s \<noteq> None \<Longrightarrow> job_step h e s = s"
  by (auto simp: job_step_def Let_def deliver_idle)

lemma job_steps_idle:
  "subscriptions s = [] \<Longrightarrow> resolving s = [] \<Longrightarrow> \<not> finally_queued s \<Longrightarrow>
   settled s \<noteq> None \<Longrightarrow> job_steps h es s = s"
  by (induction es) (simp_all add: job_step_idle)

lemma job_start_cancelled:
  "subscriptions (job_start started True (fresh_run out pending)) = []"
  "resolving (job_start started True (fresh_run out pending)) = []"
  "\<not> finally_queued (job_start started True (fresh_run out pending))"
  "settled (job_start started True (fresh_run out pending)) = Some Skipped"
  "shown (job_start started True (fresh_run out pending)) = 0"
  by (simp_all add: job_start_def Let_def scanTestOutput_def scanner_dispose_def banner_def
      appendLine_def fresh_run_def after_scan_def)

lemma job_start_subscribed:
  "all_subscribed (job_start started False (fresh_run out pending))"
  "\<not> finally_queued (job_start started False (fresh_run out pending))"
  "settled (job_start started False (fresh_run out pending)) = None"
  "shown (job_start started False (fresh_run out pending)) = 0"
  by (simp_all add: job_start_def Let_def scanTestOutput_def banner_def
      appendLine_def fresh_run_def all_subscribed_def insert_commute)

lemma runTests_outcome:
  "settled (runTests h started out tests0 c es) = (if c then Some Skipped else first_outcome es)
   \<and> shown (runTests h started out tests0 c es)
       = focus_count (settled (runTests h started out tests0 c es))"
proof (cases c)
  case True
  note C = job_start_cancelled [of started out "titleMap (getPendingTestMap tests0)"]
  have "job_steps h es (job_start started True (fresh_run out (titleMap (getPendingTestMap tests0))))
      = job_start started True (fresh_run out (titleMap (getPendingTestMap tests0)))"
    using C by (intro job_steps_idle) simp_all
  with True C show ?thesis by (simp add: runTests_def Let_def focus_count_def)
next
  case False
  note C = job_start_subscribed [of started out "titleMap (getPendingTestMap tests0)"]
  have "shown (job_start started False (fresh_run out (titleMap (getPendingTestMap tests0))))
      = focus_count (settled (job_start started False (fresh_run out (titleMap (getPendingTestMap tests0)))))"
    using C by (simp add: focus_count_def)
  from job_steps_scan [OF C(1,2) this, of h es] False C(3) show ?thesis
    by (simp add: runTests_def Let_def)
qed

text \<open>
  C7. When a run's job has got as far as the happenings given, the output channel has
  been brought to front exactly if the scan is settled with an outcome other than
  \<open>Skipped\<close>, and then once. The outcome is \<open>Skipped\<close> on cancellation at entry and
  otherwise that of the first settling happening. So an \<open>Errored\<close> outcome brings the
  channel to front, and a run whose first settling happening is the \<^verbatim>\<open>end\<close> event does
  not, whatever pass and fail events came before it.
\<close>

theorem focus_iff_not_skipped:
  "(0 < shown (runTests h started out tests0 c es)
      \<longleftrightarrow> (\<exists>v. settled (runTests h started out tests0 c es) = Some v \<and> v \<noteq> Skipped))
   \<and> shown (runTests h started out tests0 c es) \<le> 1
   \<and> settled (runTests h started out tests0 c es)
       = (if c then Some Skipped else first_outcome es)
   \<and> (settled (runTests h started out tests0 c es) = Some Errored \<longrightarrow>
        shown (runTests h started out tests0 c es) = 1)
   \<and> (first_outcome pre = None \<longrightarrow>
        settled (runTests h started out tests0 False (pre @ MochaEvent End # post)) = Some Skipped
      \<and> shown (runTests h started out tests0 False (pre @ MochaEvent End # post)) = 0)"
proof -
  note R = runTests_outcome [of h started out tests0 c es]
  note P = runTests_outcome [of h started out tests0 False "pre @ MochaEvent End # post"]
  have a: "0 < shown (runTests h started out tests0 c es)
      \<longleftrightarrow> (\<exists>v. settled (runTests h started out tests0 c es) = Some v \<and> v \<noteq> Skipped)"
    using R by (auto simp: focus_count_def split: option.splits if_splits)
  have b: "shown (runTests h started out tests0 c es) \<le> 1"
    using R by (auto simp: focus_count_def split: option.splits if_splits)
  have d: "settled (runTests h started out tests0 c es) = Some Errored \<longrightarrow>
        shown (runTests h started out tests0 c es) = 1"
    using R by (auto simp: focus_count_def)
  have e: "first_outcome pre = None \<longrightarrow>
        settled (runTests h started out tests0 False (pre @ MochaEvent End # post)) = Some Skipped
      \<and> shown (runTests h started out tests0 False (pre @ MochaEvent End # post)) = 0"
    using P by (auto simp: focus_count_def first_outcome_append)
  from a b R d e show ?thesis by blast
qed

theorem focus_iff_not_skipped_witness:
  "settled (runTests example_host ''now'' [] example_tests False
              [MochaEvent (Fail failB), RunnerError ''crash'']) = Some Errored
   \<and> shown (runTests example_host ''now'' [] example_tests False
              [MochaEvent (Fail failB), RunnerError ''crash'']) = 1
   \<and> first_outcome [MochaEvent (Fail failB), LocationSettled 0] = None
   \<and> settled (runTests example_host ''now'' [] example_tests False
              ([MochaEvent (Fail failB), LocationSettled 0] @ MochaEvent End # [])) = Some Skipped
   \<and> shown (runTests example_host ''now'' [] example_tests False
              ([MochaEvent (Fail failB), LocationSettled 0] @ MochaEvent End # [])) = 0"
proof -
  note T = focus_iff_not_skipped [of example_host "''now''" "[]" example_tests False
      "[MochaEvent (Fail failB), RunnerError ''crash'']"
      "[MochaEvent (Fail failB), LocationSettled 0]" "[]"]
  have a: "settled (runTests example_host ''now'' [] example_tests False
              [MochaEvent (Fail failB), RunnerError ''crash'']) = Some Errored"
    using T [THEN conjunct2, THEN conjunct2, THEN conjunct1] by simp
  note b = T [THEN conjunct2, THEN conjunct2, THEN conjunct2, THEN conjunct1, rule_format, OF a]
  have c: "first_outcome [MochaEvent (Fail failB), LocationSettled 0] = None" by simp
  note d = T [THEN conjunct2, THEN conjunct2, THEN conjunct2, THEN conjunct2, rule_format, OF c]
  from a b c d show ?thesis by blast
qed

section \<open>Properties of the pending-test index builder\<close>

lemma below_simps:
  "cases_below [] = []"
  "cases_below (x # xs) = cases_of x @ cases_below xs"
  "files_below [] = []"
  "files_below (x # xs) = files_of x @ files_below xs"
  by (simp_all add: cases_below_def files_below_def)

lemma titled_simps: "fst (titled c) = fullLabel c" "snd (titled c) = c"
  by (simp_all add: titled_def)

lemma visit_cases:
  "mset (inserted (visit child w)) + mset (concat (map cases_below (queue (visit child w))))
     = mset (inserted w) + mset (concat (map cases_below (queue w))) + mset (cases_of child)"
  by (cases child) (simp_all add: cases_below_def)

lemma visit_files:
  "mset (refreshed (visit child w)) + mset (concat (map files_below (queue (visit child w))))
     = mset (refreshed w) + mset (concat (map files_below (queue w))) + mset (files_of child)"
  by (cases child) (simp_all add: files_below_def)

lemma visit_titleMap:
  "titleMap w = map_of (rev (map titled (inserted w))) \<Longrightarrow>
   titleMap (visit child w) = map_of (rev (map titled (inserted (visit child w))))"
proof (cases child)
  case (CaseItem c)
  assume "titleMap w = map_of (rev (map titled (inserted w)))"
  moreover have "map_of (titled c # ps) = (map_of ps)(fullLabel c \<mapsto> c)" for ps
    by (simp add: titled_def)
  ultimately show ?thesis using CaseItem by simp
qed simp_all

lemma visit_batch_cases:
  "mset (inserted (visit_batch b w)) + mset (concat (map cases_below (queue (visit_batch b w))))
     = mset (inserted w) + mset (concat (map cases_below (queue w))) + mset (cases_below b)"
proof (induction b arbitrary: w)
  case Nil
  then show ?case by (simp add: below_simps)
next
  case (Cons child rest)
  show ?case
    unfolding visit_batch.simps below_simps Cons [of "visit child w"]
    using visit_cases [of child w] by simp
qed

lemma visit_batch_files:
  "mset (refreshed (visit_batch b w)) + mset (concat (map files_below (queue (visit_batch b w))))
     = mset (refreshed w) + mset (concat (map files_below (queue w))) + mset (files_below b)"
proof (induction b arbitrary: w)
  case Nil
  then show ?case by (simp add: below_simps)
next
  case (Cons child rest)
  show ?case
    unfolding visit_batch.simps below_simps Cons [of "visit child w"]
    using visit_files [of child w] by simp
qed

lemma visit_batch_titleMap:
  "titleMap w = map_of (rev (map titled (inserted w))) \<Longrightarrow>
   titleMap (visit_batch b w) = map_of (rev (map titled (inserted (visit_batch b w))))"
proof (induction b arbitrary: w)
  case Nil
  then show ?case by simp
next
  case (Cons child rest)
  from Cons.IH [OF visit_titleMap [OF Cons.prems]] show ?case by simp
qed

lemma while_queue_unfold:
  "while_queue w =
     (if queue w = [] then w
      else while_queue (visit_batch (last (queue w)) (w\<lparr>queue := butlast (queue w)\<rparr>)))"
  by (rule while_queue.simps)

lemma queue_split:
  "q \<noteq> [] \<Longrightarrow> concat (map f q) = concat (map f (butlast q)) @ f (last q)"
  by (induction q) simp_all

lemma while_queue_spec:
  "queue (while_queue w) = []
   \<and> mset (inserted (while_queue w))
       = mset (inserted w) + mset (concat (map cases_below (queue w)))
   \<and> mset (refreshed (while_queue w))
       = mset (refreshed w) + mset (concat (map files_below (queue w)))
   \<and> (titleMap w = map_of (rev (map titled (inserted w))) \<longrightarrow>
        titleMap (while_queue w) = map_of (rev (map titled (inserted (while_queue w)))))"
proof (induction w rule: while_queue.induct)
  case (1 w)
  show ?case
  proof (cases "queue w = []")
    case True
    then show ?thesis by (simp add: while_queue_unfold [of w])
  next
    case False
    define w' where "w' = visit_batch (last (queue w)) (w\<lparr>queue := butlast (queue w)\<rparr>)"
    have u: "while_queue w = while_queue w'"
      using False by (simp add: while_queue_unfold [of w] w'_def)
    note IH = "1.IH" [OF False, folded w'_def]
    have c: "mset (inserted w') + mset (concat (map cases_below (queue w')))
      = mset (inserted w) + mset (concat (map cases_below (queue w)))"
      using visit_batch_cases [of "last (queue w)" "w\<lparr>queue := butlast (queue w)\<rparr>"]
        queue_split [OF False, of cases_below]
      by (simp add: w'_def)
    have f: "mset (refreshed w') + mset (concat (map files_below (queue w')))
      = mset (refreshed w) + mset (concat (map files_below (queue w)))"
      using visit_batch_files [of "last (queue w)" "w\<lparr>queue := butlast (queue w)\<rparr>"]
        queue_split [OF False, of files_below]
      by (simp add: w'_def)
    have t: "titleMap w = map_of (rev (map titled (inserted w))) \<longrightarrow>
        titleMap w' = map_of (rev (map titled (inserted w')))"
      using visit_batch_titleMap [of "w\<lparr>queue := butlast (queue w)\<rparr>" "last (queue w)"]
      by (simp add: w'_def)
    from IH c f t show ?thesis unfolding u by simp
  qed
qed

lemma map_of_last_wins:
  assumes "\<forall>d \<in> set ys. fullLabel d \<noteq> fullLabel c"
  shows "map_of (rev (map titled (xs @ c # ys))) (fullLabel c) = Some c"
proof -
  have "map_of (rev (map titled ys)) (fullLabel c) = None"
    using assms by (auto simp: map_of_eq_None_iff titled_def)
  then show ?thesis
    by (simp add: map_add_def titled_def)
qed

text \<open>
  C8. The builder is a total function: for every hierarchy the loop ends, with the
  work stack empty. Every file item below the requested items (through containers and
  through refreshed files) has been refreshed, once for each time the walk meets it,
  and every case item below them has been passed to \<^verbatim>\<open>titleMap.set\<close> likewise. The
  keys of the result are the titles of these cases, each entry holds a case under its
  own title, and under a title shared by several cases the result holds the one set
  last.
\<close>

theorem getPendingTestMap_spec:
  "queue (getPendingTestMap tests0) = []
   \<and> mset (refreshed (getPendingTestMap tests0)) = mset (files_below tests0)
   \<and> mset (inserted (getPendingTestMap tests0)) = mset (cases_below tests0)
   \<and> dom (titleMap (getPendingTestMap tests0))
       = fullLabel ` set (cases_below tests0)
   \<and> (\<forall>t c. titleMap (getPendingTestMap tests0) t = Some c \<longrightarrow>
          fullLabel c = t \<and> c \<in> set (cases_below tests0))
   \<and> (\<forall>xs c ys. inserted (getPendingTestMap tests0) = xs @ c # ys
          \<and> (\<forall>d \<in> set ys. fullLabel d \<noteq> fullLabel c) \<longrightarrow>
          titleMap (getPendingTestMap tests0) (fullLabel c) = Some c)"
proof -
  define w0 where "w0 = \<lparr>queue = [tests0], titleMap = Map.empty :: string \<rightharpoonup> TestCase,
                         refreshed = [], inserted = []\<rparr>"
  have g: "getPendingTestMap tests0 = while_queue w0"
    by (simp add: getPendingTestMap_def w0_def)
  from while_queue_spec [of w0]
  have q: "queue (while_queue w0) = []"
    and i: "mset (inserted (while_queue w0)) = mset (cases_below tests0)"
    and r: "mset (refreshed (while_queue w0)) = mset (files_below tests0)"
    and t: "titleMap (while_queue w0) = map_of (rev (map titled (inserted (while_queue w0))))"
    by (simp_all add: w0_def)
  have s: "set (inserted (while_queue w0)) = set (cases_below tests0)"
    using i by (rule mset_eq_setD)
  have d: "dom (titleMap (while_queue w0)) = fullLabel ` set (cases_below tests0)"
    unfolding t s [symmetric]
    by (simp add: dom_map_of_conv_image_fst titled_def image_image)
  have k: "\<forall>t' c. titleMap (while_queue w0) t' = Some c \<longrightarrow>
          fullLabel c = t' \<and> c \<in> set (cases_below tests0)"
  proof (intro allI impI)
    fix t' c
    assume "titleMap (while_queue w0) t' = Some c"
    then have "(t', c) \<in> set (rev (map titled (inserted (while_queue w0))))"
      unfolding t by (rule map_of_SomeD)
    then show "fullLabel c = t' \<and> c \<in> set (cases_below tests0)"
      unfolding s [symmetric] by (auto simp: titled_def)
  qed
  have l: "\<forall>xs c ys. inserted (while_queue w0) = xs @ c # ys
          \<and> (\<forall>d \<in> set ys. fullLabel d \<noteq> fullLabel c) \<longrightarrow>
          titleMap (while_queue w0) (fullLabel c) = Some c"
  proof (intro allI impI)
    fix xs c ys
    assume a: "inserted (while_queue w0) = xs @ c # ys
          \<and> (\<forall>d \<in> set ys. fullLabel d \<noteq> fullLabel c)"
    then have "map_of (rev (map titled (xs @ c # ys))) (fullLabel c) = Some c"
      by (intro map_of_last_wins) simp
    with a show "titleMap (while_queue w0) (fullLabel c) = Some c"
      unfolding t by simp
  qed
  show ?thesis unfolding g by (intro conjI q r i d k l)
qed

theorem getPendingTestMap_spec_witness:
  "inserted (getPendingTestMap example_duplicates) = [caseA] @ caseA2 # [caseB]
   \<and> fullLabel caseB \<noteq> fullLabel caseA2
   \<and> fullLabel caseA2 = fullLabel caseA \<and> caseA2 \<noteq> caseA
   \<and> titleMap (getPendingTestMap example_duplicates) (fullLabel caseA2) = Some caseA2
   \<and> refreshed (getPendingTestMap example_duplicates) = [''file:///w/a.test.ts'']
   \<and> queue (getPendingTestMap example_duplicates) = []"
proof -
  have a: "inserted (getPendingTestMap example_duplicates) = [caseA] @ caseA2 # [caseB]"
    by (simp add: getPendingTestMap_def example_duplicates_def while_queue.simps)
  have r: "refreshed (getPendingTestMap example_duplicates) = [''file:///w/a.test.ts'']"
    by (simp add: getPendingTestMap_def example_duplicates_def while_queue.simps)
  have b: "\<forall>d \<in> set [caseB]. fullLabel d \<noteq> fullLabel caseA2"
    by (simp add: caseB_def caseA2_def)
  have c: "fullLabel caseA2 = fullLabel caseA" "caseA2 \<noteq> caseA"
    by (simp_all add: caseA_def caseA2_def)
  note T = getPendingTestMap_spec [of example_duplicates]
  from a b have h: "inserted (getPendingTestMap example_duplicates) = [caseA] @ caseA2 # [caseB]
      \<and> (\<forall>d \<in> set [caseB]. fullLabel d \<noteq> fullLabel caseA2)" ..
  note d = T [THEN conjunct2, THEN conjunct2, THEN conjunct2, THEN conjunct2, THEN conjunct2,
      rule_format, OF h]
  note q = T [THEN conjunct1]
  have b': "fullLabel caseB \<noteq> fullLabel caseA2"
    by (simp add: caseB_def caseA2_def)
  show ?thesis by (intro conjI a b' c d r q)
qed

section \<open>At most one result per case\<close>

lemma budget_same:
  "tests s' = tests s \<Longrightarrow> resolving s' = resolving s \<Longrightarrow> setStates s' = setStates s \<Longrightarrow>
   (keyed s \<longrightarrow> keyed s') \<and> budget s' c = budget s c"
  by (simp add: keyed_def budget_def)

lemma budget_Pass:
  assumes "keyed s"
  shows "keyed (onMochaEvent (Pass p) s) \<and> budget (onMochaEvent (Pass p) s) c \<le> budget s c"
proof (cases "tests s (fullTitle p)")
  case None
  then have "tests (onMochaEvent (Pass p) s) = tests s"
    "resolving (onMochaEvent (Pass p) s) = resolving s"
    "setStates (onMochaEvent (Pass p) s) = setStates s"
    by (simp_all add: Let_def appendLine_def)
  from budget_same [OF this] assms show ?thesis by simp
next
  case (Some tc)
  then have e: "tests (onMochaEvent (Pass p) s) = (tests s)(fullTitle p := None)"
    "resolving (onMochaEvent (Pass p) s) = resolving s"
    "setStates (onMochaEvent (Pass p) s) = setStates s @ [(tc, Passed, duration p)]"
    by (simp_all add: Let_def appendLine_def tests_delete_def setState_def)
  from assms Some have l: "fullLabel tc = fullTitle p" by (simp add: keyed_def)
  have k: "keyed (onMochaEvent (Pass p) s)"
    using assms unfolding keyed_def e by (simp split: if_splits)
  have "budget (onMochaEvent (Pass p) s) c \<le> budget s c"
    unfolding budget_def e using Some l by auto
  with k show ?thesis by simp
qed

lemma budget_Fail:
  assumes "keyed s"
  shows "keyed (onMochaEvent (Fail f) s) \<and> budget (onMochaEvent (Fail f) s) c \<le> budget s c"
proof (cases "tests s (fullTitle f)")
  case None
  then have "tests (onMochaEvent (Fail f) s) = tests s"
    "resolving (onMochaEvent (Fail f) s) = resolving s"
    "setStates (onMochaEvent (Fail f) s) = setStates s"
    by (simp_all add: Let_def appendLine_def)
  from budget_same [OF this] assms show ?thesis by simp
next
  case (Some tc)
  have e: "tests (onMochaEvent (Fail f) s) = (tests s)(fullTitle f := None)"
    "map tcase (resolving (onMochaEvent (Fail f) s)) = map tcase (resolving s) @ [tc]"
    "setStates (onMochaEvent (Fail f) s) = setStates s"
    by (simp_all add: onMochaEvent_Fail_found [OF Some] del: onMochaEvent.simps)
  from assms Some have l: "fullLabel tc = fullTitle f" by (simp add: keyed_def)
  have k: "keyed (onMochaEvent (Fail f) s)"
    using assms unfolding keyed_def e by (simp split: if_splits)
  have "budget (onMochaEvent (Fail f) s) c \<le> budget s c"
    unfolding budget_def e using Some l by auto
  with k show ?thesis by simp
qed

lemma budget_onMochaEvent:
  assumes "keyed s"
  shows "keyed (onMochaEvent evt s) \<and> budget (onMochaEvent evt s) c \<le> budget s c"
proof (cases evt)
  case Start
  with assms show ?thesis by simp
next
  case (Pass p)
  with budget_Pass [OF assms] show ?thesis by simp
next
  case (Fail f)
  with budget_Fail [OF assms] show ?thesis by simp
next
  case End
  have "tests (onMochaEvent End s) = tests s" "resolving (onMochaEvent End s) = resolving s"
    "setStates (onMochaEvent End s) = setStates s"
    by (simp_all add: resolve_def)
  from budget_same [OF this] assms End show ?thesis by simp
qed

lemma count_list_remove_nth:
  "k < length xs \<Longrightarrow>
   count_list (take k xs @ drop (Suc k) xs) c + (if xs ! k = c then 1 else 0) = count_list xs c"
proof -
  assume "k < length xs"
  then have "xs = take k xs @ xs ! k # drop (Suc k) xs" by (rule id_take_nth_drop)
  then have "count_list xs c = count_list (take k xs @ xs ! k # drop (Suc k) xs) c" by simp
  then show ?thesis by simp
qed

lemma budget_LocationSettled:
  assumes "keyed s"
  shows "keyed (fire h (LocationSettled k) s)
       \<and> budget (fire h (LocationSettled k) s) c \<le> budget s c"
proof (cases "k < length (resolving s)")
  case False
  with assms show ?thesis by simp
next
  case True
  let ?p = "resolving s ! k"
  have n: "map tcase (resolving s) ! k = tcase ?p" using True by simp
  have cnt: "count_list (take k (map tcase (resolving s)) @ drop (Suc k) (map tcase (resolving s))) c
        + (if tcase ?p = c then 1 else 0) = count_list (map tcase (resolving s)) c"
    using count_list_remove_nth [of k "map tcase (resolving s)" c] True n by simp
  show ?thesis
  proof (cases "snd (tryDeriveLocation h (locating ?p))")
    case (Fulfilled loc)
    have e: "tests (fire h (LocationSettled k) s) = tests s"
      "map tcase (resolving (fire h (LocationSettled k) s))
         = take k (map tcase (resolving s)) @ drop (Suc k) (map tcase (resolving s))"
      "map fst (setStates (fire h (LocationSettled k) s)) = map fst (setStates s) @ [tcase ?p]"
      by (simp_all add: fire_LocationSettled [OF True Fulfilled] location_then_setStates
          location_then_others take_map drop_map del: fire.simps)
    have k: "keyed (fire h (LocationSettled k) s)"
      using assms unfolding keyed_def e by simp
    from cnt have "budget (fire h (LocationSettled k) s) c \<le> budget s c"
      unfolding budget_def e by (simp split: if_splits)
    with k show ?thesis by simp
  next
    case (Rejected x)
    have e: "tests (fire h (LocationSettled k) s) = tests s"
      "map tcase (resolving (fire h (LocationSettled k) s))
         = take k (map tcase (resolving s)) @ drop (Suc k) (map tcase (resolving s))"
      "map fst (setStates (fire h (LocationSettled k) s)) = map fst (setStates s)"
      by (simp_all add: fire_LocationSettled_rejected [OF True Rejected]
          take_map drop_map del: fire.simps)
    have k: "keyed (fire h (LocationSettled k) s)"
      using assms unfolding keyed_def e by simp
    from cnt have "budget (fire h (LocationSettled k) s) c \<le> budget s c"
      unfolding budget_def e by (simp split: if_splits)
    with k show ?thesis by simp
  qed
qed

lemma budget_fire:
  assumes "keyed s"
  shows "keyed (fire h e s) \<and> budget (fire h e s) c \<le> budget s c"
proof (cases e)
  case CancellationRequested
  have "tests (fire h CancellationRequested s) = tests s"
    "resolving (fire h CancellationRequested s) = resolving s"
    "setStates (fire h CancellationRequested s) = setStates s"
    by (simp_all add: onCancellationRequested_def resolve_def)
  from budget_same [OF this] assms CancellationRequested show ?thesis by simp
next
  case (RunnerError x)
  have "tests (fire h (RunnerError x) s) = tests s"
    "resolving (fire h (RunnerError x) s) = resolving s"
    "setStates (fire h (RunnerError x) s) = setStates s"
    by (simp_all add: onRunnerError_def resolve_def appendLine_def)
  from budget_same [OF this] assms RunnerError show ?thesis by simp
next
  case (OtherOutput x)
  have "tests (fire h (OtherOutput x) s) = tests s"
    "resolving (fire h (OtherOutput x) s) = resolving s"
    "setStates (fire h (OtherOutput x) s) = setStates s"
    by (simp_all add: onOtherOutput_def appendLine_def)
  from budget_same [OF this] assms OtherOutput show ?thesis by simp
next
  case (MochaEvent evt)
  with budget_onMochaEvent [OF assms, of evt c] assms show ?thesis
    by (simp del: onMochaEvent.simps)
next
  case (LocationSettled k)
  with budget_LocationSettled [OF assms, of h k c] show ?thesis by simp
qed

lemma budget_job_step:
  assumes "keyed s"
  shows "keyed (job_step h e s) \<and> budget (job_step h e s) c \<le> budget s c"
proof -
  have "tests (job_step h e s) = tests (fire h e s)"
    "resolving (job_step h e s) = resolving (fire h e s)"
    "setStates (job_step h e s) = setStates (fire h e s)"
    by (simp_all add: job_step_def Let_def deliver_def finally_job_def scanner_dispose_def
        after_scan_def output_show_def split: option.splits)
  from budget_same [OF this, of c] budget_fire [OF assms, of h e c] show ?thesis by simp
qed

lemma budget_job_steps:
  "keyed s \<Longrightarrow> keyed (job_steps h es s) \<and> budget (job_steps h es s) c \<le> budget s c"
proof (induction es arbitrary: s)
  case Nil
  then show ?case by simp
next
  case (Cons e es)
  from budget_job_step [OF Cons.prems, of h e c]
  have a: "keyed (job_step h e s)" "budget (job_step h e s) c \<le> budget s c" by simp_all
  from Cons.IH [OF a(1)] a(2) show ?case by simp
qed

lemma tests_gone_fire: "tests s t = None \<Longrightarrow> tests (fire h e s) t = None"
proof (cases e)
  case (MochaEvent evt)
  assume "tests s t = None"
  then have "tests (onMochaEvent evt s) t = None"
    by (cases evt)
      (simp_all add: Let_def appendLine_def tests_delete_def setState_def resolve_def
        split: option.splits)
  with MochaEvent \<open>tests s t = None\<close> show ?thesis by (simp del: onMochaEvent.simps)
next
  case (LocationSettled k)
  assume "tests s t = None"
  with LocationSettled show ?thesis
    by (simp add: Let_def location_then_others split: settlement.splits)
qed (simp_all add: onCancellationRequested_def onRunnerError_def onOtherOutput_def
    resolve_def appendLine_def)

lemma tests_gone_deliver_all:
  "tests s t = None \<Longrightarrow> tests (deliver_all h es s) t = None"
proof (induction es arbitrary: s)
  case Nil
  then show ?case by simp
next
  case (Cons e es)
  have "tests (deliver h e s) t = tests (fire h e s) t"
    by (simp add: deliver_def finally_job_def scanner_dispose_def)
  with tests_gone_fire [OF Cons.prems, of h e] have "tests (deliver h e s) t = None" by simp
  from Cons.IH [OF this] show ?case by simp
qed

lemma getPendingTestMap_keyed:
  "titleMap (getPendingTestMap tests0) t = Some c \<Longrightarrow> fullLabel c = t"
proof -
  define w0 where "w0 = \<lparr>queue = [tests0], titleMap = Map.empty :: string \<rightharpoonup> TestCase,
                         refreshed = [], inserted = []\<rparr>"
  have g: "getPendingTestMap tests0 = while_queue w0"
    by (simp add: getPendingTestMap_def w0_def)
  from while_queue_spec [of w0]
  have t: "titleMap (while_queue w0) = map_of (rev (map titled (inserted (while_queue w0))))"
    by (simp add: w0_def)
  assume "titleMap (getPendingTestMap tests0) t = Some c"
  then have "(t, c) \<in> set (rev (map titled (inserted (while_queue w0))))"
    unfolding g t by (rule map_of_SomeD)
  then show ?thesis by (auto simp: titled_def)
qed

lemma job_start_fields:
  "tests (job_start started c0 (fresh_run out pending)) = pending"
  "resolving (job_start started c0 (fresh_run out pending)) = []"
  "setStates (job_start started c0 (fresh_run out pending)) = []"
  by (simp_all add: job_start_def Let_def scanTestOutput_def scanner_dispose_def banner_def
      appendLine_def fresh_run_def after_scan_def output_show_def split: option.splits)

text \<open>
  C1. In a run, whatever the token, the scanner and the resolutions do and in whatever
  order, no case is the subject of more than one \<^verbatim>\<open>setState\<close> call. A pass or fail
  event whose title is in the index removes the title; a removed title never comes
  back; and a pass or fail event whose title is not in the index changes neither the
  calls made on the run request, nor the resolutions in flight, nor the index.
\<close>

theorem set_at_most_once:
  "count_list (map fst (setStates (runTests h started out tests0 c0 es))) c \<le> 1
   \<and> (tests s (fullTitle p) = Some tc \<longrightarrow>
        tests (onMochaEvent (Pass p) s) (fullTitle p) = None
      \<and> setStates (onMochaEvent (Pass p) s) = setStates s @ [(tc, Passed, duration p)])
   \<and> (tests s (fullTitle f) = Some tc \<longrightarrow>
        tests (onMochaEvent (Fail f) s) (fullTitle f) = None
      \<and> setStates (onMochaEvent (Fail f) s) = setStates s)
   \<and> (tests s t = None \<longrightarrow> tests (deliver_all h es s) t = None)
   \<and> (tests s (fullTitle p) = None \<longrightarrow>
        setStates (onMochaEvent (Pass p) s) = setStates s
      \<and> appendedMessages (onMochaEvent (Pass p) s) = appendedMessages s
      \<and> resolving (onMochaEvent (Pass p) s) = resolving s
      \<and> tests (onMochaEvent (Pass p) s) = tests s)
   \<and> (tests s (fullTitle f) = None \<longrightarrow>
        setStates (onMochaEvent (Fail f) s) = setStates s
      \<and> appendedMessages (onMochaEvent (Fail f) s) = appendedMessages s
      \<and> resolving (onMochaEvent (Fail f) s) = resolving s
      \<and> tests (onMochaEvent (Fail f) s) = tests s)"
proof (intro conjI impI)
  define s0 where
    "s0 = job_start started c0 (fresh_run out (titleMap (getPendingTestMap tests0)))"
  have f: "tests s0 = titleMap (getPendingTestMap tests0)" "resolving s0 = []"
    "setStates s0 = []"
    unfolding s0_def by (rule job_start_fields)+
  have k: "keyed s0"
    unfolding keyed_def f using getPendingTestMap_keyed by blast
  have b: "budget s0 c \<le> 1" by (simp add: budget_def f)
  from budget_job_steps [OF k, of h es c] b
  have "budget (job_steps h es s0) c \<le> 1" by simp
  then have "count_list (map fst (setStates (job_steps h es s0))) c \<le> 1"
    by (simp add: budget_def)
  then show "count_list (map fst (setStates (runTests h started out tests0 c0 es))) c \<le> 1"
    by (simp add: runTests_def Let_def s0_def)
next
  assume "tests s (fullTitle p) = Some tc"
  then show "tests (onMochaEvent (Pass p) s) (fullTitle p) = None"
    and "setStates (onMochaEvent (Pass p) s) = setStates s @ [(tc, Passed, duration p)]"
    by (simp_all add: Let_def appendLine_def tests_delete_def setState_def)
next
  assume a: "tests s (fullTitle f) = Some tc"
  show "tests (onMochaEvent (Fail f) s) (fullTitle f) = None"
    and "setStates (onMochaEvent (Fail f) s) = setStates s"
    by (simp_all add: onMochaEvent_Fail_found [OF a] del: onMochaEvent.simps)
next
  assume "tests s t = None"
  then show "tests (deliver_all h es s) t = None" by (rule tests_gone_deliver_all)
next
  assume "tests s (fullTitle p) = None"
  then show "setStates (onMochaEvent (Pass p) s) = setStates s"
    and "appendedMessages (onMochaEvent (Pass p) s) = appendedMessages s"
    and "resolving (onMochaEvent (Pass p) s) = resolving s"
    and "tests (onMochaEvent (Pass p) s) = tests s"
    by (simp_all add: Let_def appendLine_def)
next
  assume "tests s (fullTitle f) = None"
  then show "setStates (onMochaEvent (Fail f) s) = setStates s"
    and "appendedMessages (onMochaEvent (Fail f) s) = appendedMessages s"
    and "resolving (onMochaEvent (Fail f) s) = resolving s"
    and "tests (onMochaEvent (Fail f) s) = tests s"
    by (simp_all add: Let_def appendLine_def)
qed

theorem set_at_most_once_witness:
  "tests example_scan (fullTitle passA) = Some caseA
   \<and> tests (onMochaEvent (Pass passA) example_scan) (fullTitle passA) = None
   \<and> setStates (onMochaEvent (Pass passA) example_scan) = [(caseA, Passed, 12)]
   \<and> setStates (onMochaEvent (Pass passA) (onMochaEvent (Pass passA) example_scan))
       = [(caseA, Passed, 12)]
   \<and> setStates (onMochaEvent (Fail failA) (onMochaEvent (Pass passA) example_scan))
       = [(caseA, Passed, 12)]
   \<and> resolving (onMochaEvent (Fail failA) (onMochaEvent (Pass passA) example_scan)) = []
   \<and> tests (deliver_all example_host [MochaEvent (Fail failA), MochaEvent End]
              (onMochaEvent (Pass passA) example_scan)) ''suite caseA'' = None"
proof -
  let ?s1 = "onMochaEvent (Pass passA) example_scan"
  have a: "tests example_scan (fullTitle passA) = Some caseA"
    by (simp add: example_scan_def scanTestOutput_def fresh_run_def example_pending_def
        passA_def)
  have e: "setStates example_scan = []" "resolving example_scan = []"
    by (simp_all add: example_scan_def scanTestOutput_def fresh_run_def)
  have d: "duration passA = 12" "fullTitle failA = fullTitle passA"
    "fullTitle passA = ''suite caseA''"
    by (simp_all add: passA_def failA_def)
  note T = set_at_most_once [of example_host "''now''" "[]" example_tests False "[]" caseA
      example_scan passA caseA failA "''suite caseA''"]
  note P = T [THEN conjunct2, THEN conjunct1, rule_format, OF a]
  have g: "tests ?s1 (fullTitle passA) = None" using P by simp
  have g': "tests ?s1 (fullTitle failA) = None" using g d by simp
  have g'': "tests ?s1 ''suite caseA'' = None" using g d by simp
  have st: "setStates ?s1 = [(caseA, Passed, 12)]" using P e d by simp
  have r1: "resolving ?s1 = []"
    using a e by (simp add: Let_def appendLine_def tests_delete_def setState_def)
  note U = set_at_most_once [of example_host "''now''" "[]" example_tests False
      "[MochaEvent (Fail failA), MochaEvent End]" caseA ?s1 passA caseA failA "''suite caseA''"]
  note Q = U [THEN conjunct2, THEN conjunct2, THEN conjunct2, THEN conjunct2, THEN conjunct1,
      rule_format, OF g]
  note R = U [THEN conjunct2, THEN conjunct2, THEN conjunct2, THEN conjunct2, THEN conjunct2,
      rule_format, OF g']
  note G = U [THEN conjunct2, THEN conjunct2, THEN conjunct2, THEN conjunct1, rule_format, OF g'']
  have q: "setStates (onMochaEvent (Pass passA) ?s1) = [(caseA, Passed, 12)]"
    using Q st by simp
  have r: "setStates (onMochaEvent (Fail failA) ?s1) = [(caseA, Passed, 12)]"
    "resolving (onMochaEvent (Fail failA) ?s1) = []"
    using R st r1 by simp_all
  show ?thesis by (intro conjI a g st q r G)
qed

end
